theory Spec2Isabelle
  imports Main "HOL-Library.Word"
begin

unbundle bit_operations_syntax

section \<open>The lock-less hash set \<open>llmsset.c\<close>: data model\<close>

text \<open>
  All values of the C code are \<open>uint64_t\<close> (or \<open>size_t\<close>, the same width), modelled as
  64-bit words.  The arrays \<open>table\<close>, \<open>data\<close>, \<open>bitmap1\<close>, \<open>bitmap2\<close>, \<open>bitmap3\<close> are
  stores: functions from the element offset to the 64-bit element.  The model is
  sequential: one operation runs at a time, so a compare-and-swap is judged against the
  store as the operation itself left it.
\<close>

type_synonym u64 = "64 word"

definition MASK_INDEX :: u64 where
  "MASK_INDEX = 0x00000fffffffffff"

definition MASK_HASH :: u64 where
  "MASK_HASH = 0xfffff00000000000"

text \<open>
  \<open>LINE_SIZE\<close> is a macro of the build configuration.  The source documents its constants
  for a \<open>LINE_SIZE\<close> of 64, which is the value used here.
\<close>

definition LINE_SIZE :: u64 where
  "LINE_SIZE = 64"

definition HASH_PER_CL :: u64 where
  "HASH_PER_CL = LINE_SIZE div 8"

definition CL_MASK :: u64 where
  "CL_MASK = NOT (LINE_SIZE div 8 - 1)"

definition CL_MASK_R :: u64 where
  "CL_MASK_R = LINE_SIZE div 8 - 1"

text \<open>\<open>(uint64_t)-1\<close>: no region, and the allocator's "table full" result.\<close>

definition NO_REGION :: u64 where
  "NO_REGION = - 1"

record llmsset =
  table :: "u64 \<Rightarrow> u64"
  data :: "u64 \<Rightarrow> u64"
  bitmap1 :: "u64 \<Rightarrow> u64"
  bitmap2 :: "u64 \<Rightarrow> u64"
  bitmap3 :: "u64 \<Rightarrow> u64"
  bitmap4 :: "u64 \<Rightarrow> u64"
  max_size :: u64
  table_size :: u64
  mask_field :: u64
  threshold :: int
  hash_cb :: "(u64 \<Rightarrow> u64 \<Rightarrow> u64 \<Rightarrow> u64) option"
  equals_cb :: "(u64 \<Rightarrow> u64 \<Rightarrow> u64 \<Rightarrow> u64 \<Rightarrow> bool) option"
  dead_cb :: "(u64 \<Rightarrow> bool) option"
  my_region :: "u64 \<Rightarrow> u64"
  lace_workers :: u64
  LLMSSET_MASK :: bool

text \<open>
  Beside the fields of \<open>struct llmsset\<close> the record carries the state of the module
  outside the struct: \<open>my_region\<close> is the thread-local of the file, one cell per worker
  (indexed by the worker's number); \<open>lace_workers\<close> is the number of workers of the task
  runtime; \<open>LLMSSET_MASK\<close> is the compile-time switch between \<open>&\<close> and \<open>%\<close>.  A callback
  pointer that is \<open>NULL\<close> is \<open>None\<close>.  The dead callback is taken with its context
  argument already applied, and as a pure function of the index.
\<close>

section \<open>Hashing\<close>

definition rotl64 :: "u64 \<Rightarrow> nat \<Rightarrow> u64" where
  "rotl64 x r = push_bit r x OR drop_bit (64 - r) x"

definition rehash16_mul :: "u64 \<Rightarrow> u64 \<Rightarrow> u64 \<Rightarrow> u64" where
  "rehash16_mul a b seed =
     (let prime = 1099511628211;
          hash = seed;
          hash = hash XOR a;
          hash = rotl64 hash 47;
          hash = hash * prime;
          hash = hash XOR b;
          hash = rotl64 hash 31;
          hash = hash * prime
      in hash XOR drop_bit 32 hash)"

text \<open>
  The mixer as the specification words it: xor, rotate left, multiply, xor, rotate left,
  multiply, fold the high half into the low half.  The rotation is the library's
  \<^const>\<open>word_rotl\<close>.
\<close>

definition spec_mixer :: "u64 \<Rightarrow> u64 \<Rightarrow> u64 \<Rightarrow> u64" where
  "spec_mixer S a b =
     (let h1 = word_rotl 47 (S XOR a) * 1099511628211;
          h2 = word_rotl 31 (h1 XOR b) * 1099511628211
      in h2 XOR drop_bit 32 h2)"

definition FNV_SEED :: u64 where
  "FNV_SEED = 14695981039346656037"

text \<open>
  Lines 194-195 and 247-248: the directory index a hash value starts probing at.  The
  remainder by a table size of zero traps.
\<close>

definition probe_start :: "llmsset \<Rightarrow> u64 \<Rightarrow> u64 option" where
  "probe_start dbs hash_rehash =
     (if LLMSSET_MASK dbs then Some (hash_rehash AND mask_field dbs)
      else if table_size dbs = 0 then None
      else Some (hash_rehash mod table_size dbs))"

text \<open>Line 239: the next slot of the probe sequence, inside the same cache line.\<close>

definition probe_next :: "u64 \<Rightarrow> u64" where
  "probe_next idx = (idx AND CL_MASK) OR ((idx + 1) AND CL_MASK_R)"

section \<open>Bitmaps\<close>

text \<open>
  Every bitmap access of the source computes the word \<open>index/64\<close> and the mask
  \<open>0x8000000000000000 >> (index & 63)\<close>: bits are numbered from the most significant.
\<close>

definition bit_ptr :: "u64 \<Rightarrow> u64" where
  "bit_ptr index = index div 64"

definition bit_mask :: "u64 \<Rightarrow> u64" where
  "bit_mask index = drop_bit (unat (index AND 63)) 0x8000000000000000"

text \<open>
  \<open>cas(ptr, old, new)\<close> on a store: it writes and succeeds when the cell holds \<open>old\<close>.
\<close>

definition cas :: "(u64 \<Rightarrow> u64) \<Rightarrow> u64 \<Rightarrow> u64 \<Rightarrow> u64 \<Rightarrow> bool \<times> (u64 \<Rightarrow> u64)" where
  "cas m ptr old new = (if m ptr = old then (True, m(ptr := new)) else (False, m))"

definition release_data_bucket :: "llmsset \<Rightarrow> u64 \<Rightarrow> llmsset" where
  "release_data_bucket dbs index =
     dbs\<lparr>bitmap2 := (bitmap2 dbs)
        (bit_ptr index := bitmap2 dbs (bit_ptr index) AND NOT (bit_mask index))\<rparr>"

definition set_custom_bucket :: "llmsset \<Rightarrow> u64 \<Rightarrow> bool \<Rightarrow> llmsset" where
  "set_custom_bucket dbs index on =
     (if on
      then dbs\<lparr>bitmap2 := (bitmap2 dbs)
        (bit_ptr index := bitmap2 dbs (bit_ptr index) OR bit_mask index)\<rparr>
      else dbs\<lparr>bitmap2 := (bitmap2 dbs)
        (bit_ptr index := bitmap2 dbs (bit_ptr index) AND NOT (bit_mask index))\<rparr>)"

definition get_custom_bucket :: "llmsset \<Rightarrow> u64 \<Rightarrow> bool" where
  "get_custom_bucket dbs index = (bitmap2 dbs (bit_ptr index) AND bit_mask index \<noteq> 0)"

definition llmsset_is_marked :: "llmsset \<Rightarrow> u64 \<Rightarrow> bool" where
  "llmsset_is_marked dbs index = (bitmap2 dbs (bit_ptr index) AND bit_mask index \<noteq> 0)"

text \<open>
  The retry loop shared by \<open>llmsset_mark\<close> (lines 462-466), \<open>llmsset_notify_ondead\<close>
  (lines 536-540) and the region claim of the allocator (lines 143-147): read the word,
  give up when the bit is set, otherwise compare-and-swap the bit in and retry on failure.
  The loop repeats only when the compare-and-swap fails, which it cannot on a value just
  read: that is the termination argument.
\<close>

function cas_set_loop :: "(u64 \<Rightarrow> u64) \<Rightarrow> u64 \<Rightarrow> u64 \<Rightarrow> bool \<times> (u64 \<Rightarrow> u64)" where
  "cas_set_loop m ptr msk =
     (let v = m ptr in
      if v AND msk \<noteq> 0 then (False, m)
      else (let r = cas m ptr v (v OR msk) in
            if fst r then (True, snd r) else cas_set_loop (snd r) ptr msk))"
  by pat_completeness auto
termination
  by (relation "{}") (auto simp: cas_def)

declare cas_set_loop.simps [simp del]

definition llmsset_mark :: "llmsset \<Rightarrow> u64 \<Rightarrow> bool \<times> llmsset" where
  "llmsset_mark dbs index =
     (let r = cas_set_loop (bitmap2 dbs) (bit_ptr index) (bit_mask index)
      in (fst r, dbs\<lparr>bitmap2 := snd r\<rparr>))"

definition llmsset_notify_ondead :: "llmsset \<Rightarrow> u64 \<Rightarrow> llmsset" where
  "llmsset_notify_ondead dbs index =
     dbs\<lparr>bitmap3 := snd (cas_set_loop (bitmap3 dbs) (bit_ptr index) (bit_mask index))\<rparr>"

section \<open>The allocator of payload slots\<close>

text \<open>
  \<open>__builtin_clzl\<close>: the number of zero bits above the most significant one bit (the
  compiler leaves it undefined at 0, where this function gives 64).
\<close>

fun clz_from :: "nat \<Rightarrow> u64 \<Rightarrow> nat" where
  "clz_from 0 x = 0"
| "clz_from (Suc n) x = (if bit x n then 0 else Suc (clz_from n x))"

definition clzl :: "u64 \<Rightarrow> nat" where
  "clzl x = clz_from 64 x"

text \<open>
  Lines 115-126: the scan of the eight words of \<open>bitmap2\<close> that make up a region, from
  word \<open>i\<close> on.  It returns the claimed index and the updated bitmap, or \<open>None\<close> when
  every word from \<open>i\<close> on is full.
\<close>

function scan_region ::
  "(u64 \<Rightarrow> u64) \<Rightarrow> u64 \<Rightarrow> u64 \<Rightarrow> nat \<Rightarrow> (u64 \<times> (u64 \<Rightarrow> u64)) option" where
  "scan_region bm region ptr i =
     (if i < 8 then
        (let v = bm ptr in
         if v \<noteq> 0xffffffffffffffff then
           (let j = clzl (NOT v) in
            Some ((8 * region + of_nat i) * 64 + of_nat j,
                  bm(ptr := bm ptr OR drop_bit j 0x8000000000000000)))
         else scan_region bm region (ptr + 1) (i + 1))
      else None)"
  by pat_completeness auto
termination
  by (relation "measure (\<lambda>(bm, region, ptr, i). 8 - i)") auto

declare scan_region.simps [simp del]

text \<open>
  Lines 132-148: the search for an unowned region in \<open>bitmap1\<close>, at most \<open>count\<close> regions
  starting after \<open>region\<close> and wrapping at \<open>n\<close> regions.  It returns the region claimed
  and the updated bitmap, or \<open>None\<close> where the source returns \<open>(uint64_t)-1\<close>.
\<close>

function find_region ::
  "(u64 \<Rightarrow> u64) \<Rightarrow> u64 \<Rightarrow> u64 \<Rightarrow> u64 \<Rightarrow> (u64 \<times> (u64 \<Rightarrow> u64)) option" where
  "find_region bm1 n region count =
     (if count = 0 then None
      else (let region = region + 1;
                region = (if region \<ge> n then 0 else region);
                r = cas_set_loop bm1 (region div 64)
                      (drop_bit (unat (region AND 63)) 0x8000000000000000)
            in if fst r then Some (region, snd r)
               else find_region (snd r) n region (count - 1)))"
  by pat_completeness auto
termination
  by (relation "measure (\<lambda>(bm1, n, region, count). unat count)")
     (auto simp: unat_minus_one unat_gt_0)

declare find_region.simps [simp del]

text \<open>
  The first-use branch (line 129).  The worker's number and the number of workers come
  from the task runtime; with no workers the division traps.
\<close>

definition first_region :: "llmsset \<Rightarrow> u64 \<Rightarrow> u64 \<Rightarrow> u64 option" where
  "first_region dbs worker region =
     (if lace_workers dbs = 0 then None
      else Some (region + (worker * (table_size dbs div (64 * 8))) div lace_workers dbs))"

text \<open>
  The region the specification names for a fresh worker: it divides the table size by
  4096 where the source divides by \<open>64 * 8\<close>.
\<close>

definition spec_first_region :: "llmsset \<Rightarrow> u64 \<Rightarrow> u64" where
  "spec_first_region dbs worker =
     (worker * (table_size dbs div 4096)) div lace_workers dbs"

text \<open>
  The outer loop of \<open>claim_data_bucket\<close> (lines 112-150), with the local copy of
  \<open>my_region\<close> as an argument.  The thread-local is written only at line 149.  A result
  \<open>None\<close>, here and below, means that the call does not return: it runs forever, or the
  process is stopped by a division by zero or a call through a \<open>NULL\<close> callback.
\<close>

partial_function (option) claim_loop ::
  "llmsset \<Rightarrow> u64 \<Rightarrow> u64 \<Rightarrow> (u64 \<times> llmsset) option" where
  "claim_loop dbs worker region =
     (case (if region \<noteq> NO_REGION
            then scan_region (bitmap2 dbs) region (region * 8) 0 else None) of
        Some found \<Rightarrow> Some (fst found, dbs\<lparr>bitmap2 := snd found\<rparr>)
      | None \<Rightarrow>
          (case (if region \<noteq> NO_REGION then Some region
                 else first_region dbs worker region) of
             None \<Rightarrow> None
           | Some region \<Rightarrow>
               (case find_region (bitmap1 dbs) (table_size dbs div (64 * 8)) region
                       (table_size dbs div (64 * 8)) of
                  None \<Rightarrow> Some (NO_REGION, dbs)
                | Some claimed \<Rightarrow>
                    claim_loop
                      (dbs\<lparr>bitmap1 := snd claimed,
                           my_region := (my_region dbs)(worker := fst claimed)\<rparr>)
                      worker (fst claimed))))"

declare claim_loop.simps [code]

definition claim_data_bucket :: "llmsset \<Rightarrow> u64 \<Rightarrow> (u64 \<times> llmsset) option" where
  "claim_data_bucket dbs worker = claim_loop dbs worker (my_region dbs worker)"

section \<open>Lookup-or-insert\<close>

text \<open>
  The return statements of \<open>llmsset_lookup2\<close>, one constructor each: line 204 (no payload
  slot could be claimed), line 241 (probe budget exhausted), line 212 (inserted) and
  lines 225 and 231 (found).
\<close>

datatype outcome = ClaimFailed | ProbeExhausted | Created u64 | Found u64

text \<open>The value a \<open>return\<close> hands to the caller, and what it stored into \<open>*created\<close>.\<close>

fun ret_index :: "outcome \<Rightarrow> u64" where
  "ret_index ClaimFailed = 0"
| "ret_index ProbeExhausted = 0"
| "ret_index (Created cidx) = cidx"
| "ret_index (Found d_idx) = d_idx"

fun ret_created :: "outcome \<Rightarrow> bool option" where
  "ret_created ClaimFailed = None"
| "ret_created ProbeExhausted = None"
| "ret_created (Created cidx) = Some True"
| "ret_created (Found d_idx) = Some False"

text \<open>Lines 187-188 and 244-245: one step of the hash chain.\<close>

definition hash_step :: "llmsset \<Rightarrow> bool \<Rightarrow> u64 \<Rightarrow> u64 \<Rightarrow> u64 \<Rightarrow> u64 option" where
  "hash_step dbs custom a b hash_rehash =
     (if custom
      then (case hash_cb dbs of None \<Rightarrow> None | Some h \<Rightarrow> Some (h a b hash_rehash))
      else Some (rehash16_mul a b hash_rehash))"

text \<open>
  Lines 201-216, the slot read as empty.  \<open>Inl\<close> is a return of the function; \<open>Inr\<close>
  carries on with the value re-read after a lost compare-and-swap, the payload slot
  claimed and the state.
\<close>

definition lookup_empty ::
  "llmsset \<Rightarrow> u64 \<Rightarrow> u64 \<Rightarrow> u64 \<Rightarrow> bool \<Rightarrow> u64 \<Rightarrow> u64 \<Rightarrow> u64 \<Rightarrow>
   (outcome \<times> llmsset + u64 \<times> u64 \<times> llmsset) option" where
  "lookup_empty dbs worker a b custom hash idx cidx =
     (case (if cidx = 0
            then (case claim_data_bucket dbs worker of
                    None \<Rightarrow> None
                  | Some c \<Rightarrow>
                      if fst c = NO_REGION then Some (Inl (snd c))
                      else Some (Inr (fst c,
                        (snd c)\<lparr>data := (data (snd c))
                           (2 * fst c := a, 2 * fst c + 1 := b)\<rparr>)))
            else Some (Inr (cidx, dbs))) of
        None \<Rightarrow> None
      | Some (Inl dbs1) \<Rightarrow> Some (Inl (ClaimFailed, dbs1))
      | Some (Inr (cidx, dbs1)) \<Rightarrow>
          (let r = cas (table dbs1) idx 0 (hash OR cidx);
               dbs2 = dbs1\<lparr>table := snd r\<rparr>
           in if fst r
              then Some (Inl (Created cidx,
                     if custom \<or> hash_cb dbs2 \<noteq> None
                     then set_custom_bucket dbs2 cidx custom else dbs2))
              else Some (Inr (table dbs2 idx, cidx, dbs2))))"

text \<open>
  Lines 218-234, the comparison of the tag and of the payload.  The inner \<open>None\<close> is "no
  match, go on probing".
\<close>

definition lookup_match ::
  "llmsset \<Rightarrow> u64 \<Rightarrow> u64 \<Rightarrow> bool \<Rightarrow> u64 \<Rightarrow> u64 \<Rightarrow> u64 \<Rightarrow> (outcome \<times> llmsset) option option" where
  "lookup_match dbs a b custom hash v cidx =
     (if hash = v AND MASK_HASH then
        (let d_idx = v AND MASK_INDEX;
             d0 = data dbs (2 * d_idx);
             d1 = data dbs (2 * d_idx + 1);
             found = Some (Some (Found d_idx,
                       if cidx \<noteq> 0 then release_data_bucket dbs cidx else dbs))
         in if custom
            then (case equals_cb dbs of
                    None \<Rightarrow> None
                  | Some eq \<Rightarrow> if eq a b d0 d1 then found else Some None)
            else if d0 = a \<and> d1 = b then found else Some None)
      else Some None)"

text \<open>The loop of lines 197-250.\<close>

partial_function (option) lookup_loop ::
  "llmsset \<Rightarrow> u64 \<Rightarrow> u64 \<Rightarrow> u64 \<Rightarrow> bool \<Rightarrow> u64 \<Rightarrow> u64 \<Rightarrow> u64 \<Rightarrow> u64 \<Rightarrow> u64 \<Rightarrow> int \<Rightarrow>
   (outcome \<times> llmsset) option" where
  "lookup_loop dbs worker a b custom hash hash_rehash idx last_idx cidx i =
     (case (if table dbs idx = 0
            then lookup_empty dbs worker a b custom hash idx cidx
            else Some (Inr (table dbs idx, cidx, dbs))) of
        None \<Rightarrow> None
      | Some (Inl res) \<Rightarrow> Some res
      | Some (Inr (v, cidx1, dbs1)) \<Rightarrow>
          (case lookup_match dbs1 a b custom hash v cidx1 of
             None \<Rightarrow> None
           | Some (Some res) \<Rightarrow> Some res
           | Some None \<Rightarrow>
               (if probe_next idx = last_idx then
                  (if i + 1 = threshold dbs1 then Some (ProbeExhausted, dbs1)
                   else (case hash_step dbs1 custom a b hash_rehash of
                           None \<Rightarrow> None
                         | Some hr \<Rightarrow>
                             (case probe_start dbs1 hr of
                                None \<Rightarrow> None
                              | Some st \<Rightarrow>
                                  lookup_loop dbs1 worker a b custom hash hr st st
                                    cidx1 (i + 1))))
                else lookup_loop dbs1 worker a b custom hash hash_rehash
                       (probe_next idx) last_idx cidx1 i)))"

declare lookup_loop.simps [code]

definition llmsset_lookup2 ::
  "llmsset \<Rightarrow> u64 \<Rightarrow> u64 \<Rightarrow> u64 \<Rightarrow> bool \<Rightarrow> (outcome \<times> llmsset) option" where
  "llmsset_lookup2 dbs worker a b custom =
     (case hash_step dbs custom a b FNV_SEED of
        None \<Rightarrow> None
      | Some hash_rehash \<Rightarrow>
          (case probe_start dbs hash_rehash of
             None \<Rightarrow> None
           | Some st \<Rightarrow>
               lookup_loop dbs worker a b custom (hash_rehash AND MASK_HASH)
                 hash_rehash st st 0 0))"

text \<open>
  The two entry points, as the caller sees them: the index returned, what was stored
  into \<open>*created\<close> (\<open>None\<close> when nothing was), and the state left behind.
\<close>

definition llmsset_lookup ::
  "llmsset \<Rightarrow> u64 \<Rightarrow> u64 \<Rightarrow> u64 \<Rightarrow> (u64 \<times> bool option \<times> llmsset) option" where
  "llmsset_lookup dbs worker a b =
     map_option (\<lambda>r. (ret_index (fst r), ret_created (fst r), snd r))
       (llmsset_lookup2 dbs worker a b False)"

definition llmsset_lookupc ::
  "llmsset \<Rightarrow> u64 \<Rightarrow> u64 \<Rightarrow> u64 \<Rightarrow> (u64 \<times> bool option \<times> llmsset) option" where
  "llmsset_lookupc dbs worker a b =
     map_option (\<lambda>r. (ret_index (fst r), ret_created (fst r), snd r))
       (llmsset_lookup2 dbs worker a b True)"

section \<open>Re-insertion during garbage collection\<close>

text \<open>The loop of lines 286-307; the result is the \<open>int\<close> returned, as a truth value.\<close>

partial_function (option) rehash_loop ::
  "llmsset \<Rightarrow> u64 \<Rightarrow> u64 \<Rightarrow> bool \<Rightarrow> u64 \<Rightarrow> u64 \<Rightarrow> u64 \<Rightarrow> u64 \<Rightarrow> int \<Rightarrow>
   (bool \<times> llmsset) option" where
  "rehash_loop dbs a b custom new_v hash_rehash idx last_idx i =
     (let r = (if table dbs idx = 0 then cas (table dbs) idx 0 new_v
               else (False, table dbs));
          dbs1 = dbs\<lparr>table := snd r\<rparr>
      in if fst r then Some (True, dbs1)
         else if probe_next idx = last_idx then
           (if i + 1 = threshold dbs1 then Some (False, dbs1)
            else (case hash_step dbs1 custom a b hash_rehash of
                    None \<Rightarrow> None
                  | Some hr \<Rightarrow>
                      (case probe_start dbs1 hr of
                         None \<Rightarrow> None
                       | Some st \<Rightarrow>
                           rehash_loop dbs1 a b custom new_v hr st st (i + 1))))
         else rehash_loop dbs1 a b custom new_v hash_rehash (probe_next idx) last_idx i)"

declare rehash_loop.simps [code]

definition llmsset_rehash_bucket :: "llmsset \<Rightarrow> u64 \<Rightarrow> (bool \<times> llmsset) option" where
  "llmsset_rehash_bucket dbs d_idx =
     (let a = data dbs (2 * d_idx);
          b = data dbs (2 * d_idx + 1);
          custom = (hash_cb dbs \<noteq> None \<and> get_custom_bucket dbs d_idx)
      in case hash_step dbs custom a b FNV_SEED of
           None \<Rightarrow> None
         | Some hash_rehash \<Rightarrow>
             (case probe_start dbs hash_rehash of
                None \<Rightarrow> None
              | Some st \<Rightarrow>
                  rehash_loop dbs a b custom ((hash_rehash AND MASK_HASH) OR d_idx)
                    hash_rehash st st 0))"

section \<open>The sweeps\<close>

text \<open>
  The three sweeps divide a range in two while it holds more than 1024 indices:
  \<open>SPAWN\<close> of the lower half, \<open>CALL\<close> of the upper half, \<open>SYNC\<close>.  The model runs
  them in the order of a single worker, which executes the called half and then, at the
  \<open>SYNC\<close>, the spawned one.
\<close>

lemma unat_succ_below:
  fixes k n :: u64
  assumes "k < n"
  shows "unat (k + 1) = Suc (unat k)"
proof -
  have "unat k < unat n"
    using assms by (simp add: word_less_nat_alt)
  moreover have "unat n < 2 ^ 64"
    using unsigned_less [of n, where ?'a = nat] by simp
  ultimately have "Suc (unat k) < 2 ^ 64"
    by simp
  then show ?thesis
    by (simp add: unat_word_ariths)
qed

lemma loop_measure_decreases:
  fixes k n :: u64
  assumes "k < n"
  shows "unat n - unat (k + 1) < unat n - unat k"
  using assms unat_succ_below [OF assms] by (simp add: word_less_nat_alt)

text \<open>Lines 479-486: the serial loop of the rehash sweep.\<close>

function rehash_leaf ::
  "llmsset \<Rightarrow> u64 \<Rightarrow> u64 \<Rightarrow> u64 \<Rightarrow> u64 \<Rightarrow> u64 \<Rightarrow> llmsset option" where
  "rehash_leaf dbs ptr msk first k count =
     (if k < count then
        (case (if bitmap2 dbs ptr AND msk \<noteq> 0
               then map_option snd (llmsset_rehash_bucket dbs (first + k))
               else Some dbs) of
           None \<Rightarrow> None
         | Some dbs1 \<Rightarrow>
             (if drop_bit 1 msk = 0
              then rehash_leaf dbs1 (ptr + 1) 0x8000000000000000 first (k + 1) count
              else rehash_leaf dbs1 ptr (drop_bit 1 msk) first (k + 1) count))
      else Some dbs)"
  by pat_completeness auto
termination
  by (relation "measure (\<lambda>(dbs, ptr, msk, first, k, count). unat count - unat k)")
     (auto simp: loop_measure_decreases)

declare rehash_leaf.simps [simp del]

function llmsset_rehash_par :: "llmsset \<Rightarrow> u64 \<Rightarrow> u64 \<Rightarrow> llmsset option" where
  "llmsset_rehash_par dbs first count =
     (if count > 1024 then
        (case llmsset_rehash_par dbs (first + count div 2) (count - count div 2) of
           None \<Rightarrow> None
         | Some dbs1 \<Rightarrow> llmsset_rehash_par dbs1 first (count div 2))
      else rehash_leaf dbs (first div 64)
             (drop_bit (unat (first AND 63)) 0x8000000000000000) first 0 count)"
  by pat_completeness auto
termination
  by (relation "measure (\<lambda>(dbs, first, count). unat count)")
     (auto simp: word_less_nat_alt unat_sub word_le_nat_alt unat_div)

declare llmsset_rehash_par.simps [simp del]

definition llmsset_rehash :: "llmsset \<Rightarrow> llmsset option" where
  "llmsset_rehash dbs = llmsset_rehash_par dbs 0 (table_size dbs)"

text \<open>Lines 507-514: the serial loop of the count, on the store of \<open>bitmap2\<close>.\<close>

function count_leaf :: "(u64 \<Rightarrow> u64) \<Rightarrow> u64 \<Rightarrow> u64 \<Rightarrow> u64 \<Rightarrow> u64 \<Rightarrow> u64 \<Rightarrow> u64" where
  "count_leaf bm ptr msk k count result =
     (if k < count then
        (let result = (if bm ptr AND msk \<noteq> 0 then result + 1 else result)
         in if drop_bit 1 msk = 0
            then count_leaf bm (ptr + 1) 0x8000000000000000 (k + 1) count result
            else count_leaf bm ptr (drop_bit 1 msk) (k + 1) count result)
      else result)"
  by pat_completeness auto
termination
  by (relation "measure (\<lambda>(bm, ptr, msk, k, count, result). unat count - unat k)")
     (auto simp: loop_measure_decreases)

declare count_leaf.simps [simp del]

function llmsset_count_marked_par :: "llmsset \<Rightarrow> u64 \<Rightarrow> u64 \<Rightarrow> u64" where
  "llmsset_count_marked_par dbs first count =
     (if count > 1024 then
        (let split = count div 2;
             right = llmsset_count_marked_par dbs (first + split) (count - split);
             left = llmsset_count_marked_par dbs first split
         in left + right)
      else count_leaf (bitmap2 dbs) (first div 64)
             (drop_bit (unat (first AND 63)) 0x8000000000000000) 0 count 0)"
  by pat_completeness auto
termination
  by (relation "measure (\<lambda>(dbs, first, count). unat count)")
     (auto simp: word_less_nat_alt unat_sub word_le_nat_alt unat_div)

declare llmsset_count_marked_par.simps [simp del]

definition llmsset_count_marked :: "llmsset \<Rightarrow> u64" where
  "llmsset_count_marked dbs = llmsset_count_marked_par dbs 0 (table_size dbs)"

text \<open>
  The count as the specification words it: the number of indices below \<open>table_size\<close>
  whose mark bit is set, one index after the other.
\<close>

definition serial_count :: "llmsset \<Rightarrow> nat" where
  "serial_count dbs =
     length (filter (\<lambda>i. llmsset_is_marked dbs (of_nat i)) [0..<unat (table_size dbs)])"

text \<open>
  Lines 560-563 and 566-569: compare-and-swap the word to \<open>f\<close> of its value until it
  succeeds.
\<close>

function cas_update_loop :: "(u64 \<Rightarrow> u64) \<Rightarrow> u64 \<Rightarrow> (u64 \<Rightarrow> u64) \<Rightarrow> (u64 \<Rightarrow> u64)" where
  "cas_update_loop m ptr f =
     (let v = m ptr; r = cas m ptr v (f v)
      in if fst r then snd r else cas_update_loop (snd r) ptr f)"
  by pat_completeness auto
termination
  by (relation "{}") (auto simp: cas_def)

declare cas_update_loop.simps [simp del]

text \<open>Lines 551-572: the serial loop of the notify sweep, from \<open>k\<close> up to \<open>lim\<close>.\<close>

function notify_leaf :: "llmsset \<Rightarrow> u64 \<Rightarrow> u64 \<Rightarrow> llmsset option" where
  "notify_leaf dbs k lim =
     (if k < lim then
        (if bitmap2 dbs (k div 64) AND bit_mask k = 0 \<and> bitmap3 dbs (k div 64) AND bit_mask k \<noteq> 0
         then (case dead_cb dbs of
                 None \<Rightarrow> None
               | Some cb \<Rightarrow>
                   (if cb k
                    then notify_leaf
                           (dbs\<lparr>bitmap2 := cas_update_loop (bitmap2 dbs) (k div 64)
                                            (\<lambda>v. v OR bit_mask k)\<rparr>) (k + 1) lim
                    else notify_leaf
                           (dbs\<lparr>bitmap3 := cas_update_loop (bitmap3 dbs) (k div 64)
                                            (\<lambda>v. v AND NOT (bit_mask k))\<rparr>) (k + 1) lim))
         else notify_leaf dbs (k + 1) lim)
      else Some dbs)"
  by pat_completeness auto
termination
  by (relation "measure (\<lambda>(dbs, k, lim). unat lim - unat k)")
     (auto simp: loop_measure_decreases)

declare notify_leaf.simps [simp del]

function llmsset_notify_par :: "llmsset \<Rightarrow> u64 \<Rightarrow> u64 \<Rightarrow> llmsset option" where
  "llmsset_notify_par dbs first count =
     (if count > 1024 then
        (case llmsset_notify_par dbs (first + count div 2) (count - count div 2) of
           None \<Rightarrow> None
         | Some dbs1 \<Rightarrow> llmsset_notify_par dbs1 first (count div 2))
      else notify_leaf dbs first (first + count))"
  by pat_completeness auto
termination
  by (relation "measure (\<lambda>(dbs, first, count). unat count)")
     (auto simp: word_less_nat_alt unat_sub word_le_nat_alt unat_div)

declare llmsset_notify_par.simps [simp del]

definition llmsset_notify_all :: "llmsset \<Rightarrow> llmsset option" where
  "llmsset_notify_all dbs =
     (if dead_cb dbs = None then Some dbs
      else llmsset_notify_par dbs 0 (table_size dbs))"

section \<open>Life cycle and registration\<close>

definition llmsset_reset_region :: "llmsset \<Rightarrow> llmsset" where
  "llmsset_reset_region dbs = dbs\<lparr>my_region := (\<lambda>worker. NO_REGION)\<rparr>"

text \<open>
  Modelled from the spec: \<open>llmsset_set_size\<close> is declared in the header, which is not
  part of the sources at hand.  The specification says that it updates the logical
  \<open>table_size\<close> and the mask, the mask being \<open>table_size - 1\<close>, and that the probe budget
  \<open>threshold\<close> is a tunable derived elsewhere; the budget is an argument here.
\<close>

definition llmsset_set_size :: "llmsset \<Rightarrow> u64 \<Rightarrow> int \<Rightarrow> llmsset" where
  "llmsset_set_size dbs sz thr =
     dbs\<lparr>table_size := sz, mask_field := sz - 1, threshold := thr\<rparr>"

text \<open>\<open>__builtin_popcountll\<close>: the number of one bits.\<close>

definition popcountll :: "u64 \<Rightarrow> nat" where
  "popcountll x = length (filter (bit x) [0..<64])"

datatype create_error =
  InitialNotPowerOf2 | MaxNotPowerOf2 | InitialAboveMax | InitialTooSmall | MappingFailed

text \<open>
  The lengths of the six mappings of lines 354-367, in the order \<open>table\<close>, \<open>data\<close>,
  \<open>bitmap1\<close> to \<open>bitmap4\<close>, computed in \<open>size_t\<close>.
\<close>

definition mapping_lengths :: "u64 \<Rightarrow> u64 list" where
  "mapping_lengths max_sz =
     [max_sz * 8, max_sz * 16, max_sz div (512 * 8), max_sz div 8, max_sz div 8, max_sz div 8]"

text \<open>
  \<open>llmsset_create\<close>: each \<open>exit(1)\<close> is an error value.  \<open>mmap\<close> refuses a length of
  zero, so the test of lines 369-372 ends the process when one of the lengths is zero,
  which \<open>bitmap1\<close> has for every \<open>max_size\<close> below 4096; a mapping of positive length is
  assumed to succeed.  The mappings are fresh anonymous memory, which reads as zero.  The
  switch \<open>LLMSSET_MASK\<close>, the number of workers of the runtime and the probe budget are
  arguments.
\<close>

definition llmsset_create ::
  "bool \<Rightarrow> u64 \<Rightarrow> int \<Rightarrow> u64 \<Rightarrow> u64 \<Rightarrow> create_error + llmsset" where
  "llmsset_create mask_mode workers thr initial_size max_sz =
     (if mask_mode \<and> popcountll initial_size \<noteq> 1 then Inl InitialNotPowerOf2
      else if mask_mode \<and> popcountll max_sz \<noteq> 1 then Inl MaxNotPowerOf2
      else if initial_size > max_sz then Inl InitialAboveMax
      else if initial_size < 512 then Inl InitialTooSmall
      else if 0 \<in> set (mapping_lengths max_sz) then Inl MappingFailed
      else Inr (llmsset_reset_region (llmsset_set_size
        \<lparr>table = (\<lambda>i. 0), data = (\<lambda>i. 0), bitmap1 = (\<lambda>i. 0),
         bitmap2 = (\<lambda>i. 0)(0 := 0xc000000000000000),
         bitmap3 = (\<lambda>i. 0), bitmap4 = (\<lambda>i. 0),
         max_size = max_sz, table_size = 0, mask_field = 0, threshold = 0,
         hash_cb = None, equals_cb = None, dead_cb = None,
         my_region = (\<lambda>worker. 0), lace_workers = workers,
         LLMSSET_MASK = mask_mode\<rparr> initial_size thr)))"

text \<open>
  \<open>llmsset_clear\<close>: the directory, \<open>bitmap1\<close> and \<open>bitmap2\<close> are remapped or zero-filled,
  either way they read as zero afterwards; the two reserved bits are set again and every
  worker forgets its region.
\<close>

definition llmsset_clear :: "llmsset \<Rightarrow> llmsset" where
  "llmsset_clear dbs =
     llmsset_reset_region
       (dbs\<lparr>table := (\<lambda>i. 0), bitmap1 := (\<lambda>i. 0),
            bitmap2 := (\<lambda>i. 0)(0 := 0xc000000000000000)\<rparr>)"

definition llmsset_set_ondead :: "llmsset \<Rightarrow> (u64 \<Rightarrow> bool) option \<Rightarrow> llmsset" where
  "llmsset_set_ondead dbs cb = dbs\<lparr>dead_cb := cb\<rparr>"

definition llmsset_set_custom ::
  "llmsset \<Rightarrow> (u64 \<Rightarrow> u64 \<Rightarrow> u64 \<Rightarrow> u64) option \<Rightarrow>
   (u64 \<Rightarrow> u64 \<Rightarrow> u64 \<Rightarrow> u64 \<Rightarrow> bool) option \<Rightarrow> llmsset" where
  "llmsset_set_custom dbs hcb ecb = dbs\<lparr>hash_cb := hcb, equals_cb := ecb\<rparr>"

section \<open>Sequences of calls\<close>

text \<open>
  A client of the table makes one call after the other.  \<open>run\<close> executes a list of calls
  from a state and collects what each call returned; it is \<open>None\<close> when a call does not
  return.
\<close>

datatype call =
  Lookup u64 u64 u64 | LookupC u64 u64 u64 | Mark u64 | Clear | Rehash | NotifyAll

datatype answer = Returned u64 "bool option" | Marked bool | Done

fun call_on :: "llmsset \<Rightarrow> call \<Rightarrow> (answer \<times> llmsset) option" where
  "call_on dbs (Lookup worker a b) =
     map_option (\<lambda>r. (Returned (fst r) (fst (snd r)), snd (snd r)))
       (llmsset_lookup dbs worker a b)"
| "call_on dbs (LookupC worker a b) =
     map_option (\<lambda>r. (Returned (fst r) (fst (snd r)), snd (snd r)))
       (llmsset_lookupc dbs worker a b)"
| "call_on dbs (Mark index) =
     Some (Marked (fst (llmsset_mark dbs index)), snd (llmsset_mark dbs index))"
| "call_on dbs Clear = Some (Done, llmsset_clear dbs)"
| "call_on dbs Rehash = map_option (\<lambda>s. (Done, s)) (llmsset_rehash dbs)"
| "call_on dbs NotifyAll = map_option (\<lambda>s. (Done, s)) (llmsset_notify_all dbs)"

fun run :: "llmsset \<Rightarrow> call list \<Rightarrow> (answer list \<times> llmsset) option" where
  "run dbs [] = Some ([], dbs)"
| "run dbs (c # cs) =
     (case call_on dbs c of
        None \<Rightarrow> None
      | Some r \<Rightarrow>
          (case run (snd r) cs of
             None \<Rightarrow> None
           | Some rs \<Rightarrow> Some (fst r # fst rs, snd rs)))"

section \<open>Example tables\<close>

text \<open>
  A table of 4096 slots as \<open>llmsset_create\<close> leaves it, for one worker and a probe budget
  of 16 cache lines, in the build that takes the remainder.
\<close>

definition fresh_table :: llmsset where
  "fresh_table = projr (llmsset_create False 1 16 4096 4096)"

text \<open>
  The same table after two calls of \<open>llmsset_notify_ondead\<close>, for the indices 5 and 6,
  and with a dead callback that keeps index 5 only.
\<close>

definition notify_table :: llmsset where
  "notify_table =
     llmsset_set_ondead
       (llmsset_notify_ondead (llmsset_notify_ondead fresh_table 5) 6)
       (Some (\<lambda>i. i = 5))"

text \<open>
  A table of 512 slots, one region, in a reservation of 4096, for one worker: the
  smallest table for which every mapping of \<open>llmsset_create\<close> has a positive length.
\<close>

definition small_table :: llmsset where
  "small_table = projr (llmsset_create False 1 16 512 4096)"

text \<open>
  The table of 512 slots after three insertions by worker 0: the payloads (1,1), (2,2)
  and (3,3) are stored at the indices 2, 3 and 4.
\<close>

definition populated_table :: llmsset where
  "populated_table =
     (case run small_table [Lookup 0 1 1, Lookup 0 2 2, Lookup 0 3 3] of
        None \<Rightarrow> small_table
      | Some r \<Rightarrow> snd r)"

text \<open>
  A table of 512 slots whose probe budget is a single cache line, and the eight payloads
  used with it: under the default hash all of them start in the cache line of the
  directory slots 104 to 111, where the payload (0,0) starts as well.
\<close>

definition tight_table :: llmsset where
  "tight_table = projr (llmsset_create False 1 1 512 4096)"

definition one_line_payloads :: "u64 list" where
  "one_line_payloads = [85, 99, 175, 176, 252, 304, 380, 544]"

text \<open>A table of 4096 slots, that is eight regions, shared by two workers.\<close>

definition two_worker_table :: llmsset where
  "two_worker_table = projr (llmsset_create False 2 16 4096 4096)"

text \<open>
  The table of two workers at the start of a collection: cleared, and the indices 2048,
  2049 and 2051 of region 4 marked.  No worker owns a region.
\<close>

definition collected_table :: llmsset where
  "collected_table =
     (case run two_worker_table [Clear, Mark 2048, Mark 2049, Mark 2051] of
        None \<Rightarrow> two_worker_table
      | Some r \<Rightarrow> snd r)"

text \<open>
  The fresh table with custom callbacks registered: the default mixer as the hash
  callback and equality of both words as the equality callback.
\<close>

definition custom_table :: llmsset where
  "custom_table =
     llmsset_set_custom fresh_table (Some rehash16_mul) (Some (\<lambda>a b c d. a = c \<and> b = d))"

section \<open>Facts about words and bitmaps\<close>

lemma unat_and_63: "unat ((x::u64) AND 63) = unat x mod 64"
proof -
  have "(63::u64) = mask 6"
    by (simp add: mask_eq_exp_minus_1)
  then have "x AND 63 = take_bit 6 x"
    by (simp add: take_bit_eq_mask)
  then show ?thesis
    by (simp add: unsigned_take_bit_eq take_bit_eq_mod unat_mod)
qed

lemma bit_top: "bit (0x8000000000000000::u64) n \<longleftrightarrow> n = 63"
proof -
  have "(0x8000000000000000::u64) = 2 ^ 63"
    by simp
  then have "bit (0x8000000000000000::u64) n = bit ((2::u64) ^ 63) n"
    by (simp only:)
  also have "\<dots> \<longleftrightarrow> n = 63"
    by (simp only: bit_exp_iff) (auto simp: possible_bit_word)
  finally show ?thesis .
qed

lemma bit_bit_mask: "bit (bit_mask i) n \<longleftrightarrow> n = 63 - unat i mod 64"
proof -
  have k: "unat i mod 64 < 64"
    by simp
  show ?thesis
    unfolding bit_mask_def unat_and_63
    using k by (simp only: bit_drop_bit_eq bit_top comp_def) arith
qed

lemma bit_mask_eq: "bit_mask i = push_bit (63 - unat i mod 64) 1"
  by (rule bit_word_eqI) (auto simp: bit_bit_mask bit_simps)

lemma bit_test_iff: "(w AND bit_mask i \<noteq> 0) \<longleftrightarrow> bit (w::u64) (63 - unat i mod 64)"
  by (simp add: bit_mask_eq bit_iff_and_push_bit_not_eq_0)

lemma bit_mask_set:
  "bit (w OR bit_mask i) n \<longleftrightarrow> bit (w::u64) n \<or> n = 63 - unat i mod 64"
  by (auto simp: bit_bit_mask bit_simps)

lemma bit_mask_clear:
  "bit (w AND NOT (bit_mask i)) n \<longleftrightarrow> bit (w::u64) n \<and> n \<noteq> 63 - unat i mod 64"
  by (auto simp: bit_bit_mask bit_simps dest: bit_imp_le_length)

lemma bit_ptr_unat: "unat (bit_ptr i) = unat i div 64"
  by (simp add: bit_ptr_def unat_div)

lemma set_then_test: "(w OR bit_mask i) AND bit_mask i \<noteq> (0::u64)"
  using bit_test_iff [of "w OR bit_mask i" i] bit_mask_set [of w i "63 - unat i mod 64"]
  by blast

lemma clear_then_test: "(w AND NOT (bit_mask i)) AND bit_mask i = (0::u64)"
  using bit_test_iff [of "w AND NOT (bit_mask i)" i]
    bit_mask_clear [of w i "63 - unat i mod 64"]
  by blast

lemma cas_set_loop_eq:
  "cas_set_loop m p msk =
     (if m p AND msk \<noteq> 0 then (False, m) else (True, m(p := m p OR msk)))"
  by (subst cas_set_loop.simps) (simp add: cas_def Let_def)

lemma cas_update_loop_eq: "cas_update_loop m p f = m(p := f (m p))"
  by (subst cas_update_loop.simps) (simp add: cas_def Let_def)

section \<open>Creation\<close>

text \<open>
  A reservation of fewer than 4096 slots makes the mapping of \<open>bitmap1\<close> empty, and
  \<open>llmsset_create\<close> ends the process.
\<close>

lemma create_needs_4096:
  assumes "max_sz < 4096"
  shows "\<exists>e. llmsset_create mask_mode workers thr initial_size max_sz = Inl e"
proof -
  have "unat max_sz < 4096"
    using assms by (simp add: word_less_nat_alt)
  then have "unat (max_sz div (512 * 8)) = 0"
    by (simp add: unat_div)
  then have "max_sz div (512 * 8) = 0"
    by (simp add: word_unat_eq_iff)
  then have "0 \<in> set (mapping_lengths max_sz)"
    by (simp add: mapping_lengths_def)
  then show ?thesis
    by (simp add: llmsset_create_def)
qed

section \<open>Facts about the hash\<close>

lemma rotl64_47: "rotl64 x 47 = word_rotl 47 x"
  unfolding rotl64_def
proof (rule bit_word_eqI)
  fix n assume n: "n < LENGTH(64)"
  have m: "(n + 17) mod 64 = (if n < 47 then n + 17 else n - 47)"
    using n by (auto simp: mod_if)
  show "bit (push_bit 47 x OR drop_bit (64 - 47) x) n = bit (word_rotl 47 x) n"
    using n by (auto simp: bit_simps m add.commute dest: bit_imp_le_length)
qed

lemma rotl64_31: "rotl64 x 31 = word_rotl 31 x"
  unfolding rotl64_def
proof (rule bit_word_eqI)
  fix n assume n: "n < LENGTH(64)"
  have m: "(n + 33) mod 64 = (if n < 31 then n + 33 else n - 31)"
    using n by (auto simp: mod_if)
  show "bit (push_bit 31 x OR drop_bit (64 - 31) x) n = bit (word_rotl 31 x) n"
    using n by (auto simp: bit_simps m add.commute dest: bit_imp_le_length)
qed

lemma rehash16_mul_spec: "rehash16_mul a b S = spec_mixer S a b"
  by (simp add: rehash16_mul_def spec_mixer_def Let_def rotl64_47 rotl64_31)

lemma MASK_INDEX_mask: "MASK_INDEX = mask 44"
  by (simp add: MASK_INDEX_def mask_eq_exp_minus_1)

lemma MASK_HASH_mask: "MASK_HASH = NOT (mask 44)"
  by (simp add: MASK_HASH_def mask_eq_exp_minus_1 not_eq_complement)

lemma MASK_HASH_tag: "h AND MASK_HASH = push_bit 44 (drop_bit 44 h)"
  unfolding MASK_HASH_mask
  by (rule bit_word_eqI) (auto simp: bit_simps)

section \<open>The allocator leaves the directory and the payloads alone\<close>

definition same_config :: "llmsset \<Rightarrow> llmsset \<Rightarrow> bool" where
  "same_config dbs dbs' \<longleftrightarrow>
     table_size dbs' = table_size dbs \<and> max_size dbs' = max_size dbs \<and>
     mask_field dbs' = mask_field dbs \<and> threshold dbs' = threshold dbs \<and>
     hash_cb dbs' = hash_cb dbs \<and> equals_cb dbs' = equals_cb dbs \<and>
     dead_cb dbs' = dead_cb dbs \<and> lace_workers dbs' = lace_workers dbs \<and>
     LLMSSET_MASK dbs' = LLMSSET_MASK dbs"

definition alloc_frame :: "llmsset \<Rightarrow> llmsset \<Rightarrow> bool" where
  "alloc_frame dbs dbs' \<longleftrightarrow>
     table dbs' = table dbs \<and> data dbs' = data dbs \<and> bitmap3 dbs' = bitmap3 dbs \<and>
     same_config dbs dbs'"

lemma alloc_frame_refl: "alloc_frame dbs dbs"
  by (simp add: alloc_frame_def same_config_def)

lemma alloc_frame_bitmap2: "alloc_frame dbs (dbs\<lparr>bitmap2 := x\<rparr>)"
  by (simp add: alloc_frame_def same_config_def)

lemma alloc_frame_region:
  "alloc_frame (dbs\<lparr>bitmap1 := x, my_region := r\<rparr>) dbs' \<Longrightarrow> alloc_frame dbs dbs'"
  by (simp add: alloc_frame_def same_config_def)

lemma claim_loop_frame:
  assumes "claim_loop dbs w r = Some y"
  shows "alloc_frame dbs (snd y)"
proof (rule claim_loop.raw_induct
    [where P = "\<lambda>dbs w r y. alloc_frame dbs (snd y)", OF _ assms], goal_cases)
  case (1 f dbs worker region y)
  show ?case
  proof (cases "if region \<noteq> NO_REGION
            then scan_region (bitmap2 dbs) region (region * 8) 0 else None")
    case (Some found)
    with 1(2) show ?thesis
      by (auto simp: alloc_frame_bitmap2)
  next
    case None
    note scan = this
    show ?thesis
    proof (cases "if region \<noteq> NO_REGION then Some region
                  else first_region dbs worker region")
      case None
      with scan 1(2) show ?thesis
        by simp
    next
      case (Some region1)
      note reg = this
      show ?thesis
      proof (cases "find_region (bitmap1 dbs) (table_size dbs div (64 * 8)) region1
                       (table_size dbs div (64 * 8))")
        case None
        with scan reg 1(2) show ?thesis
          by (auto simp: alloc_frame_refl)
      next
        case (Some claimed)
        with scan reg 1(2) have
          "f (dbs\<lparr>bitmap1 := snd claimed,
                  my_region := (my_region dbs)(worker := fst claimed)\<rparr>)
             worker (fst claimed) = Some y"
          by simp
        from 1(1) [OF this] show ?thesis
          by (rule alloc_frame_region)
      qed
    qed
  qed
qed

lemma claim_data_bucket_frame:
  "claim_data_bucket dbs w = Some (c, dbs1) \<Longrightarrow> alloc_frame dbs dbs1"
  using claim_loop_frame [of dbs w "my_region dbs w" "(c, dbs1)"]
  by (simp add: claim_data_bucket_def)

section \<open>The hash, the tag and the start of the probe\<close>

text \<open>
  Claim C5.  The hash of the default path is the mixer of the specification, started at
  the seed 14695981039346656037: xor \<open>a\<close>, rotate left by 47, multiply by 1099511628211,
  xor \<open>b\<close>, rotate left by 31, multiply again, and xor the result with itself shifted
  right by 32.  A lookup that finds the first slot of its probe sequence empty and gets
  the payload slot \<open>c\<close> from the allocator publishes, at the directory index
  \<open>h mod table_size\<close> (\<open>h AND (table_size - 1)\<close> in mask mode), the top 20 bits of
  \<open>h\<close> as the tag, combined with \<open>c\<close>.
\<close>

theorem default_hash_tag_start:
  assumes h: "h = spec_mixer FNV_SEED a b"
    and st: "st = (if LLMSSET_MASK dbs then h AND (table_size dbs - 1)
                   else h mod table_size dbs)"
    and cfg: "mask_field dbs = table_size dbs - 1" "table_size dbs \<noteq> 0"
    and empty: "table dbs st = 0"
    and claim: "claim_data_bucket dbs w = Some (c, dbs1)" "c \<noteq> NO_REGION"
  shows "rehash16_mul a b FNV_SEED = h \<and>
         (\<exists>dbs'. llmsset_lookup dbs w a b = Some (c, Some True, dbs') \<and>
            table dbs' = (table dbs)(st := push_bit 44 (drop_bit 44 h) OR c))"
proof -
  have hh: "rehash16_mul a b FNV_SEED = h"
    by (simp add: h rehash16_mul_spec)
  have ps: "probe_start dbs h = Some st"
    using st cfg by (simp add: probe_start_def)
  have fr: "table dbs1 = table dbs"
    using claim_data_bucket_frame [OF claim(1)] by (simp add: alloc_frame_def)
  show ?thesis
    using hh ps fr empty claim
    by (simp add: llmsset_lookup_def llmsset_lookup2_def hash_step_def
        lookup_loop.simps [of dbs] lookup_empty_def cas_def Let_def MASK_HASH_tag
        set_custom_bucket_def)
qed

theorem default_hash_tag_start_witness:
  "rehash16_mul 7 11 FNV_SEED = spec_mixer FNV_SEED 7 11 \<and>
   (\<exists>dbs'. llmsset_lookup fresh_table 0 7 11 = Some (2, Some True, dbs') \<and>
      table dbs' = (table fresh_table)
        (spec_mixer FNV_SEED 7 11 mod table_size fresh_table :=
           push_bit 44 (drop_bit 44 (spec_mixer FNV_SEED 7 11)) OR 2))"
proof -
  have "map_option fst (claim_data_bucket fresh_table 0) = Some 2"
    by code_simp
  then obtain dbs1 where c: "claim_data_bucket fresh_table 0 = Some (2, dbs1)"
    by auto
  have m: "\<not> LLMSSET_MASK fresh_table"
    by code_simp
  have cfg: "mask_field fresh_table = table_size fresh_table - 1"
    "table_size fresh_table \<noteq> 0"
    by code_simp+
  have e: "table fresh_table (spec_mixer FNV_SEED 7 11 mod table_size fresh_table) = 0"
    by code_simp
  have n: "(2::u64) \<noteq> NO_REGION"
    by code_simp
  have st: "spec_mixer FNV_SEED 7 11 mod table_size fresh_table =
      (if LLMSSET_MASK fresh_table
       then spec_mixer FNV_SEED 7 11 AND (table_size fresh_table - 1)
       else spec_mixer FNV_SEED 7 11 mod table_size fresh_table)"
    using m by simp
  show ?thesis
    by (rule default_hash_tag_start [OF refl st cfg e c n])
qed

section \<open>Marking\<close>

text \<open>
  Claim C6.  A call of \<open>llmsset_mark\<close> on an index whose mark bit is clear returns true
  and sets the bit, after which a further call returns false and leaves the state as it
  is; a call on an index whose bit is set returns false and changes nothing; and
  \<open>llmsset_is_marked\<close> is true exactly when the bit of the index, counted from the most
  significant bit of word \<open>index / 64\<close> of \<open>bitmap2\<close>, is set.
\<close>

theorem mark_once:
  "(\<not> llmsset_is_marked dbs i \<longrightarrow>
      (\<exists>dbs'. llmsset_mark dbs i = (True, dbs') \<and> llmsset_is_marked dbs' i \<and>
         llmsset_mark dbs' i = (False, dbs'))) \<and>
   (llmsset_is_marked dbs i \<longrightarrow> llmsset_mark dbs i = (False, dbs)) \<and>
   (llmsset_is_marked dbs i \<longleftrightarrow> bit (bitmap2 dbs (i div 64)) (63 - unat i mod 64))"
  by (simp add: llmsset_is_marked_def llmsset_mark_def cas_set_loop_eq Let_def
      bit_mask_set bit_test_iff bit_ptr_def)

theorem mark_once_witness:
  "\<not> llmsset_is_marked fresh_table 5 \<and>
   (\<exists>dbs'. llmsset_mark fresh_table 5 = (True, dbs') \<and> llmsset_is_marked dbs' 5 \<and>
      llmsset_mark dbs' 5 = (False, dbs')) \<and>
   llmsset_is_marked fresh_table 1 \<and>
   llmsset_mark fresh_table 1 = (False, fresh_table)"
proof -
  have a: "\<not> llmsset_is_marked fresh_table 5"
    by code_simp
  have b: "llmsset_is_marked fresh_table 1"
    by code_simp
  show ?thesis
    using mark_once [of fresh_table 5] mark_once [of fresh_table 1] a b
    by simp
qed

section \<open>Walking a bitmap bit by bit\<close>

text \<open>The test that every sweep makes for the index \<open>x\<close>.\<close>

definition marked_at :: "(u64 \<Rightarrow> u64) \<Rightarrow> u64 \<Rightarrow> bool" where
  "marked_at bm x \<longleftrightarrow> bm (bit_ptr x) AND bit_mask x \<noteq> 0"

lemma mask_step:
  fixes x :: u64
  assumes "x + 1 \<noteq> 0"
  shows "(if drop_bit 1 (bit_mask x) = 0 then (bit_ptr x + 1, 0x8000000000000000)
          else (bit_ptr x, drop_bit 1 (bit_mask x))) = (bit_ptr (x + 1), bit_mask (x + 1))"
proof -
  have s: "unat (x + 1) = Suc (unat x)"
    using assms unatSuc [of x] by (simp add: add.commute)
  have top: "(0x8000000000000000::u64) = push_bit 63 1"
    by simp
  show ?thesis
  proof (cases "unat x mod 64 = 63")
    case True
    then have m: "bit_mask x = 1"
      by (simp add: bit_mask_eq)
    have d: "Suc (unat x) div 64 = Suc (unat x div 64)" "Suc (unat x) mod 64 = 0"
      using True by (auto simp: mod_Suc div_Suc)
    have "unat (bit_ptr x + 1) = Suc (unat x div 64)"
    proof -
      have "unat x div 64 < 2 ^ 64 - 1"
        using unsigned_less [of x, where ?'a = nat] by simp
      then show ?thesis
        by (simp add: unat_word_ariths bit_ptr_unat)
    qed
    then have p: "bit_ptr x + 1 = bit_ptr (x + 1)"
      by (simp add: word_unat_eq_iff bit_ptr_unat s d)
    have "bit_mask (x + 1) = 0x8000000000000000"
      by (simp add: bit_mask_eq s d)
    with m p show ?thesis
      by simp
  next
    case False
    then have lt: "unat x mod 64 < 63"
      using mod_less_divisor [of 64 "unat x"] by linarith
    have d: "Suc (unat x) div 64 = unat x div 64" "Suc (unat x) mod 64 = Suc (unat x mod 64)"
      using lt by (auto simp: mod_Suc div_Suc)
    have p: "bit_ptr (x + 1) = bit_ptr x"
      by (simp add: word_unat_eq_iff bit_ptr_unat s d)
    have m: "drop_bit 1 (bit_mask x) = bit_mask (x + 1)"
      unfolding bit_mask_eq s d
      by (rule bit_word_eqI) (use lt in \<open>auto simp: bit_simps\<close>)
    have "bit_mask (x + 1) \<noteq> 0"
      using bit_bit_mask [of "x + 1" "63 - unat (x + 1) mod 64"] by auto
    with m p show ?thesis
      by simp
  qed
qed


lemma count_leaf_branches:
  fixes x :: u64
  assumes "x + 1 \<noteq> 0"
  shows "(if drop_bit 1 (bit_mask x) = 0
          then count_leaf bm (bit_ptr x + 1) 0x8000000000000000 k count res
          else count_leaf bm (bit_ptr x) (drop_bit 1 (bit_mask x)) k count res) =
         count_leaf bm (bit_ptr (x + 1)) (bit_mask (x + 1)) k count res"
  using mask_step [OF assms] by (auto split: if_splits)

lemma unat_add_below:
  fixes first k count :: u64
  assumes "unat first + unat count < 2 ^ 64" "k \<le> count"
  shows "unat (first + k) = unat first + unat k"
proof -
  have "unat k \<le> unat count"
    using assms(2) by (simp add: word_le_nat_alt)
  then show ?thesis
    using assms(1) by (simp add: unat_word_ariths)
qed

lemma count_leaf_sum:
  fixes first count :: u64
  assumes nov: "unat first + unat count < 2 ^ 64"
  shows "k \<le> count \<Longrightarrow>
         count_leaf bm (bit_ptr (first + k)) (bit_mask (first + k)) k count res =
         res + of_nat (length (filter (\<lambda>j. marked_at bm (first + of_nat j))
                                 [unat k..<unat count]))"
proof (induction "unat count - unat k" arbitrary: k res)
  case 0
  then have "k = count"
    by (simp add: word_le_nat_alt word_unat_eq_iff)
  then show ?case
    by (subst count_leaf.simps) simp
next
  case (Suc n)
  then have lt: "k < count"
    by (simp add: word_less_nat_alt)
  have sk: "unat (k + 1) = Suc (unat k)"
    by (rule unat_succ_below [OF lt])
  have le: "k + 1 \<le> count"
    using lt by (rule inc_le)
  have ux: "unat (first + k) = unat first + unat k"
    by (rule unat_add_below [OF nov Suc.prems])
  have "unat (first + k) < 2 ^ 64 - 1"
    using ux nov lt by (simp add: word_less_nat_alt)
  then have "unat (first + k + 1) = Suc (unat (first + k))"
    by (simp add: unat_word_ariths)
  then have nz: "first + k + 1 \<noteq> 0"
    by auto
  have n: "n = unat count - unat (k + 1)"
    using Suc.hyps(2) sk by simp
  have split: "[unat k..<unat count] = unat k # [Suc (unat k)..<unat count]"
    using lt by (simp add: word_less_nat_alt upt_conv_Cons)
  have add1: "first + k + 1 = first + (k + 1)"
    by simp
  show ?case
    apply (subst count_leaf.simps)
    apply (simp only: lt if_True Let_def count_leaf_branches [OF nz] add1
        Suc.hyps(1) [OF n le])
    apply (simp add: split sk marked_at_def)
    done
qed


lemma filter_upt_shift:
  assumes "s \<le> c"
  shows "length (filter P [s..<c]) = length (filter (\<lambda>j. P (j + s)) [0..<c - s])"
proof -
  have "[s..<c] = map (\<lambda>j. j + s) [0..<c - s]"
    using assms by (simp add: map_add_upt)
  then have "filter P [s..<c] = map (\<lambda>j. j + s) (filter (\<lambda>j. P (j + s)) [0..<c - s])"
    by (simp add: filter_map comp_def)
  then show ?thesis
    by simp
qed

lemma count_par_sum:
  "unat first + unat count < 2 ^ 64 \<Longrightarrow>
   llmsset_count_marked_par dbs first count =
   of_nat (length (filter (\<lambda>j. marked_at (bitmap2 dbs) (first + of_nat j))
                     [0..<unat count]))"
proof (induction dbs first count rule: llmsset_count_marked_par.induct)
  case (1 dbs first count)
  let ?P = "\<lambda>j. marked_at (bitmap2 dbs) (first + of_nat j)"
  show ?case
  proof (cases "count > 1024")
    case False
    have "count_leaf (bitmap2 dbs) (bit_ptr (first + 0)) (bit_mask (first + 0)) 0 count 0 =
          0 + of_nat (length (filter ?P [unat (0::u64)..<unat count]))"
      by (rule count_leaf_sum [OF "1.prems"]) simp
    then show ?thesis
      using False
      by (subst llmsset_count_marked_par.simps) (simp add: bit_ptr_def bit_mask_def)
  next
    case True
    define split where "split = count div 2"
    have us: "unat split = unat count div 2"
      by (simp add: split_def unat_div)
    have sle: "split \<le> count"
      by (simp add: word_le_nat_alt us)
    have ur: "unat (count - split) = unat count - unat split"
      using sle by (simp add: unat_sub)
    have uf: "unat (first + split) = unat first + unat split"
      by (rule unat_add_below [OF "1.prems" sle])
    have nov_r: "unat (first + split) + unat (count - split) < 2 ^ 64"
      using "1.prems" uf ur us by simp
    have nov_l: "unat first + unat split < 2 ^ 64"
      using "1.prems" us by simp
    have r: "llmsset_count_marked_par dbs (first + split) (count - split) =
      of_nat (length (filter (\<lambda>j. marked_at (bitmap2 dbs) (first + split + of_nat j))
                        [0..<unat (count - split)]))"
      using "1.IH"(1) [OF True split_def nov_r] .
    have l: "llmsset_count_marked_par dbs first split =
      of_nat (length (filter ?P [0..<unat split]))"
      using "1.IH"(2) [OF True split_def refl nov_l] .
    have shift: "length (filter ?P [unat split..<unat count]) =
      length (filter (\<lambda>j. marked_at (bitmap2 dbs) (first + split + of_nat j))
                [0..<unat (count - split)])"
      using sle
      by (simp add: filter_upt_shift [of _ _ ?P] word_le_nat_alt ur ac_simps)
    have "[0..<unat count] = [0..<unat split] @ [unat split..<unat count]"
      using sle upt_add_eq_append [of 0 "unat split" "unat count - unat split"]
      by (simp add: word_le_nat_alt)
    then have "length (filter ?P [0..<unat count]) =
      length (filter ?P [0..<unat split]) + length (filter ?P [unat split..<unat count])"
      by simp
    then show ?thesis
      using True r l shift
      by (subst llmsset_count_marked_par.simps) (simp add: Let_def split_def)
  qed
qed

section \<open>Counting the marked slots\<close>

text \<open>
  Claim C8.  For every state of the bitmap, \<open>llmsset_count_marked\<close>, which halves a range
  of more than 1024 indices, counts the halves and adds the two results, returns the
  number of indices below \<open>table_size\<close> whose mark bit is set: the value of the serial
  count.
\<close>

theorem count_marked_serial:
  "unat (llmsset_count_marked dbs) = serial_count dbs"
proof -
  have "length (filter (\<lambda>i. llmsset_is_marked dbs (of_nat i)) [0..<unat (table_size dbs)])
        \<le> unat (table_size dbs)"
    using length_filter_le [of _ "[0..<unat (table_size dbs)]"] by simp
  then have "length (filter (\<lambda>i. llmsset_is_marked dbs (of_nat i))
               [0..<unat (table_size dbs)]) < 2 ^ 64"
    using unsigned_less [of "table_size dbs", where ?'a = nat] by simp
  moreover have "unat (0::u64) + unat (table_size dbs) < 2 ^ 64"
    using unsigned_less [of "table_size dbs", where ?'a = nat] by simp
  ultimately show ?thesis
    using count_par_sum [of 0 "table_size dbs" dbs]
    by (simp add: llmsset_count_marked_def serial_count_def marked_at_def
        llmsset_is_marked_def unat_of_nat)
qed

section \<open>The notify sweep\<close>

lemma bit_index_eq:
  assumes "bit_ptr i = bit_ptr j" "unat i mod 64 = unat j mod 64"
  shows "i = j"
proof -
  have "unat (bit_ptr i) = unat (bit_ptr j)"
    using assms(1) by simp
  then have "unat i div 64 = unat j div 64"
    by (simp only: bit_ptr_unat)
  then have "unat i = unat j"
    using assms(2) by (metis div_mult_mod_eq)
  then show ?thesis
    by (simp add: word_unat_eq_iff)
qed

lemma pos_eq_iff: "63 - unat (i::u64) mod 64 = 63 - unat (k::u64) mod 64 \<longleftrightarrow> unat i mod 64 = unat k mod 64"
  using mod_less_divisor [of 64 "unat i"] mod_less_divisor [of 64 "unat k"] by linarith

lemma marked_at_set:
  "marked_at (bm(bit_ptr k := bm (bit_ptr k) OR bit_mask k)) i \<longleftrightarrow> marked_at bm i \<or> i = k"
proof (cases "bit_ptr i = bit_ptr k")
  case True
  have "marked_at (bm(bit_ptr k := bm (bit_ptr k) OR bit_mask k)) i \<longleftrightarrow>
        bit (bm (bit_ptr k) OR bit_mask k) (63 - unat i mod 64)"
    by (simp add: marked_at_def bit_test_iff True)
  also have "\<dots> \<longleftrightarrow> bit (bm (bit_ptr k)) (63 - unat i mod 64) \<or> unat i mod 64 = unat k mod 64"
    by (simp only: bit_mask_set pos_eq_iff)
  also have "\<dots> \<longleftrightarrow> marked_at bm i \<or> i = k"
    using bit_index_eq [OF True] by (auto simp: marked_at_def bit_test_iff True)
  finally show ?thesis .
next
  case False
  then have "i \<noteq> k"
    by auto
  with False show ?thesis
    by (simp add: marked_at_def)
qed

lemma marked_at_clear:
  "marked_at (bm(bit_ptr k := bm (bit_ptr k) AND NOT (bit_mask k))) i \<longleftrightarrow>
   marked_at bm i \<and> i \<noteq> k"
proof (cases "bit_ptr i = bit_ptr k")
  case True
  have "marked_at (bm(bit_ptr k := bm (bit_ptr k) AND NOT (bit_mask k))) i \<longleftrightarrow>
        bit (bm (bit_ptr k) AND NOT (bit_mask k)) (63 - unat i mod 64)"
    by (simp add: marked_at_def bit_test_iff True)
  also have "\<dots> \<longleftrightarrow> bit (bm (bit_ptr k)) (63 - unat i mod 64) \<and> unat i mod 64 \<noteq> unat k mod 64"
    by (simp only: bit_mask_clear pos_eq_iff)
  also have "\<dots> \<longleftrightarrow> marked_at bm i \<and> i \<noteq> k"
    using bit_index_eq [OF True] by (auto simp: marked_at_def bit_test_iff True)
  finally show ?thesis .
next
  case False
  then have "i \<noteq> k"
    by auto
  with False show ?thesis
    by (simp add: marked_at_def)
qed

definition sweep_rel :: "(u64 \<Rightarrow> bool) \<Rightarrow> u64 set \<Rightarrow> llmsset \<Rightarrow> llmsset \<Rightarrow> bool" where
  "sweep_rel cb R dbs dbs' \<longleftrightarrow>
     (\<forall>i. marked_at (bitmap2 dbs') i =
        (marked_at (bitmap2 dbs) i \<or> (i \<in> R \<and> marked_at (bitmap3 dbs) i \<and> cb i))) \<and>
     (\<forall>i. marked_at (bitmap3 dbs') i =
        (marked_at (bitmap3 dbs) i \<and> \<not> (i \<in> R \<and> \<not> marked_at (bitmap2 dbs) i \<and> \<not> cb i))) \<and>
     dead_cb dbs' = dead_cb dbs"

lemma sweep_rel_empty: "sweep_rel cb {} dbs dbs"
  by (simp add: sweep_rel_def)

lemma sweep_rel_union:
  assumes "sweep_rel cb R1 dbs dbs1" "sweep_rel cb R2 dbs1 dbs2" "R1 \<inter> R2 = {}"
  shows "sweep_rel cb (R1 \<union> R2) dbs dbs2"
proof -
  have pt: "marked_at (bitmap2 dbs2) i =
        (marked_at (bitmap2 dbs) i \<or> (i \<in> R1 \<union> R2 \<and> marked_at (bitmap3 dbs) i \<and> cb i)) \<and>
      marked_at (bitmap3 dbs2) i =
        (marked_at (bitmap3 dbs) i \<and>
         \<not> (i \<in> R1 \<union> R2 \<and> \<not> marked_at (bitmap2 dbs) i \<and> \<not> cb i))" for i
  proof -
    have a1: "marked_at (bitmap2 dbs1) i =
        (marked_at (bitmap2 dbs) i \<or> (i \<in> R1 \<and> marked_at (bitmap3 dbs) i \<and> cb i))"
      and b1: "marked_at (bitmap3 dbs1) i =
        (marked_at (bitmap3 dbs) i \<and> \<not> (i \<in> R1 \<and> \<not> marked_at (bitmap2 dbs) i \<and> \<not> cb i))"
      using assms(1) by (simp_all add: sweep_rel_def)
    have a2: "marked_at (bitmap2 dbs2) i =
        (marked_at (bitmap2 dbs1) i \<or> (i \<in> R2 \<and> marked_at (bitmap3 dbs1) i \<and> cb i))"
      and b2: "marked_at (bitmap3 dbs2) i =
        (marked_at (bitmap3 dbs1) i \<and> \<not> (i \<in> R2 \<and> \<not> marked_at (bitmap2 dbs1) i \<and> \<not> cb i))"
      using assms(2) by (simp_all add: sweep_rel_def)
    have d: "\<not> (i \<in> R1 \<and> i \<in> R2)"
      using assms(3) by blast
    show ?thesis
      using d by (cases "i \<in> R1"; cases "i \<in> R2"; simp add: a1 b1 a2 b2)
  qed
  have "dead_cb dbs2 = dead_cb dbs"
    using assms(1,2) by (simp add: sweep_rel_def)
  with pt show ?thesis
    by (simp add: sweep_rel_def)
qed


definition notify_one :: "llmsset \<Rightarrow> (u64 \<Rightarrow> bool) \<Rightarrow> u64 \<Rightarrow> llmsset" where
  "notify_one dbs cb k =
     (if \<not> marked_at (bitmap2 dbs) k \<and> marked_at (bitmap3 dbs) k
      then (if cb k
            then dbs\<lparr>bitmap2 := (bitmap2 dbs)(bit_ptr k := bitmap2 dbs (bit_ptr k) OR bit_mask k)\<rparr>
            else dbs\<lparr>bitmap3 := (bitmap3 dbs)
                   (bit_ptr k := bitmap3 dbs (bit_ptr k) AND NOT (bit_mask k))\<rparr>)
      else dbs)"

lemma notify_one_rel: "sweep_rel cb {k} dbs (notify_one dbs cb k)"
  by (auto simp: sweep_rel_def notify_one_def marked_at_set marked_at_clear)

lemma notify_one_cb: "dead_cb (notify_one dbs cb k) = dead_cb dbs"
  by (simp add: notify_one_def)

lemma notify_leaf_step:
  assumes "dead_cb dbs = Some cb" "k < lim"
  shows "notify_leaf dbs k lim = notify_leaf (notify_one dbs cb k) (k + 1) lim"
  using assms
  by (subst notify_leaf.simps)
     (simp add: notify_one_def marked_at_def bit_ptr_def cas_update_loop_eq)

lemma range_split_first:
  fixes k lim :: u64
  assumes "k < lim"
  shows "{i. k \<le> i \<and> i < lim} = {k} \<union> {i. k + 1 \<le> i \<and> i < lim}"
    and "{k} \<inter> {i. k + 1 \<le> i \<and> i < lim} = {}"
proof -
  have sk: "unat (k + 1) = Suc (unat k)"
    by (rule unat_succ_below [OF assms])
  have "k \<le> i \<longleftrightarrow> i = k \<or> k + 1 \<le> i" for i
    by (auto simp: word_le_nat_alt sk word_unat_eq_iff)
  then show "{i. k \<le> i \<and> i < lim} = {k} \<union> {i. k + 1 \<le> i \<and> i < lim}"
    using assms by auto
  show "{k} \<inter> {i. k + 1 \<le> i \<and> i < lim} = {}"
    by (auto simp: word_le_nat_alt sk)
qed

lemma notify_leaf_rel:
  "dead_cb dbs = Some cb \<Longrightarrow> k \<le> lim \<Longrightarrow>
   \<exists>dbs'. notify_leaf dbs k lim = Some dbs' \<and> sweep_rel cb {i. k \<le> i \<and> i < lim} dbs dbs'"
proof (induction "unat lim - unat k" arbitrary: dbs k)
  case 0
  then have "k = lim"
    by (simp add: word_le_nat_alt word_unat_eq_iff)
  moreover have e: "{i. lim \<le> i \<and> i < lim} = {}"
    by auto
  have "sweep_rel cb {i. lim \<le> i \<and> i < lim} dbs dbs"
    unfolding e by (rule sweep_rel_empty)
  ultimately show ?case
    by (subst notify_leaf.simps) simp
next
  case (Suc n)
  then have lt: "k < lim"
    by (simp add: word_less_nat_alt)
  have sk: "unat (k + 1) = Suc (unat k)"
    by (rule unat_succ_below [OF lt])
  have n: "n = unat lim - unat (k + 1)"
    using Suc.hyps(2) sk by simp
  have cb1: "dead_cb (notify_one dbs cb k) = Some cb"
    using Suc.prems(1) by (simp add: notify_one_cb)
  from Suc.hyps(1) [OF n cb1 inc_le [OF lt]] obtain dbs' where
    r: "notify_leaf (notify_one dbs cb k) (k + 1) lim = Some dbs'"
    and s: "sweep_rel cb {i. k + 1 \<le> i \<and> i < lim} (notify_one dbs cb k) dbs'"
    by blast
  have "sweep_rel cb ({k} \<union> {i. k + 1 \<le> i \<and> i < lim}) dbs dbs'"
    by (rule sweep_rel_union [OF notify_one_rel s range_split_first(2) [OF lt]])
  then have "sweep_rel cb {i. k \<le> i \<and> i < lim} dbs dbs'"
    by (simp only: range_split_first(1) [OF lt])
  with r show ?case
    by (simp add: notify_leaf_step [OF Suc.prems(1) lt])
qed


lemma range_split_mid:
  fixes first split count :: u64
  assumes nov: "unat first + unat count < 2 ^ 64" and sle: "split \<le> count"
  shows "{i. first + split \<le> i \<and> i < first + split + (count - split)} \<union>
         {i. first \<le> i \<and> i < first + split} = {i. first \<le> i \<and> i < first + count}"
    and "{i. first + split \<le> i \<and> i < first + split + (count - split)} \<inter>
         {i. first \<le> i \<and> i < first + split} = {}"
proof -
  have uf: "unat (first + split) = unat first + unat split"
    by (rule unat_add_below [OF nov sle])
  have uc: "unat (first + count) = unat first + unat count"
    by (rule unat_add_below [OF nov]) simp
  have e: "first + split + (count - split) = first + count"
    by simp
  have us: "unat split \<le> unat count"
    using sle by (simp add: word_le_nat_alt)
  show "{i. first + split \<le> i \<and> i < first + split + (count - split)} \<union>
         {i. first \<le> i \<and> i < first + split} = {i. first \<le> i \<and> i < first + count}"
    unfolding e using us by (auto simp: word_le_nat_alt word_less_nat_alt uf uc)
  show "{i. first + split \<le> i \<and> i < first + split + (count - split)} \<inter>
         {i. first \<le> i \<and> i < first + split} = {}"
    unfolding e by (auto simp: word_le_nat_alt word_less_nat_alt uf uc)
qed

lemma notify_par_rel:
  "dead_cb dbs = Some cb \<Longrightarrow> unat first + unat count < 2 ^ 64 \<Longrightarrow>
   \<exists>dbs'. llmsset_notify_par dbs first count = Some dbs' \<and>
      sweep_rel cb {i. first \<le> i \<and> i < first + count} dbs dbs'"
proof (induction dbs first count rule: llmsset_notify_par.induct)
  case (1 dbs first count)
  show ?case
  proof (cases "count > 1024")
    case False
    have "first \<le> first + count"
      using "1.prems"(2) by (simp add: no_plus_overflow_unat_size word_size)
    from notify_leaf_rel [OF "1.prems"(1) this] False show ?thesis
      by (subst llmsset_notify_par.simps) simp
  next
    case True
    define split where "split = count div 2"
    have us: "unat split = unat count div 2"
      by (simp add: split_def unat_div)
    have sle: "split \<le> count"
      by (simp add: word_le_nat_alt us)
    have ur: "unat (count - split) = unat count - unat split"
      using sle by (simp add: unat_sub)
    have uf: "unat (first + split) = unat first + unat split"
      by (rule unat_add_below [OF "1.prems"(2) sle])
    have nov_r: "unat (first + split) + unat (count - split) < 2 ^ 64"
      using "1.prems"(2) uf ur us by simp
    have nov_l: "unat first + unat split < 2 ^ 64"
      using "1.prems"(2) us by simp
    from "1.IH"(1) [OF True "1.prems"(1) nov_r [unfolded split_def]] obtain dbs1 where
      r: "llmsset_notify_par dbs (first + split) (count - split) = Some dbs1"
      and rs: "sweep_rel cb {i. first + split \<le> i \<and> i < first + split + (count - split)}
                 dbs dbs1"
      unfolding split_def by blast
    have cb1: "dead_cb dbs1 = Some cb"
      using rs "1.prems"(1) by (simp add: sweep_rel_def)
    from "1.IH"(2) [OF True r [unfolded split_def] cb1 nov_l [unfolded split_def]]
    obtain dbs2 where
      l: "llmsset_notify_par dbs1 first split = Some dbs2"
      and ls: "sweep_rel cb {i. first \<le> i \<and> i < first + split} dbs1 dbs2"
      unfolding split_def by blast
    have "sweep_rel cb ({i. first + split \<le> i \<and> i < first + split + (count - split)} \<union>
         {i. first \<le> i \<and> i < first + split}) dbs dbs2"
      by (rule sweep_rel_union [OF rs ls range_split_mid(2) [OF "1.prems"(2) sle]])
    then have "sweep_rel cb {i. first \<le> i \<and> i < first + count} dbs dbs2"
      by (simp only: range_split_mid(1) [OF "1.prems"(2) sle])
    with True r l show ?thesis
      by (subst llmsset_notify_par.simps) (simp add: split_def)
  qed
qed


text \<open>
  Claim C7.  With no dead callback registered \<open>llmsset_notify_all\<close> changes nothing.
  With a callback registered it returns, and for every index \<open>i\<close> below \<open>table_size\<close>
  whose \<open>bitmap2\<close> bit is clear and whose \<open>bitmap3\<close> bit is set the outcome follows the
  callback on \<open>i\<close>: true sets the \<open>bitmap2\<close> bit, false clears the \<open>bitmap3\<close> bit.  The
  two bits of every other index are as before.
\<close>

theorem notify_all_sweep:
  "(dead_cb dbs = None \<longrightarrow> llmsset_notify_all dbs = Some dbs) \<and>
   (\<forall>cb. dead_cb dbs = Some cb \<longrightarrow>
      (\<exists>dbs'. llmsset_notify_all dbs = Some dbs' \<and>
         (\<forall>i. if i < table_size dbs \<and> \<not> llmsset_is_marked dbs i \<and> marked_at (bitmap3 dbs) i
              then (if cb i
                    then llmsset_is_marked dbs' i \<and> marked_at (bitmap3 dbs') i
                    else \<not> llmsset_is_marked dbs' i \<and> \<not> marked_at (bitmap3 dbs') i)
              else llmsset_is_marked dbs' i = llmsset_is_marked dbs i \<and>
                   marked_at (bitmap3 dbs') i = marked_at (bitmap3 dbs) i)))"
proof (intro conjI allI impI)
  assume "dead_cb dbs = None"
  then show "llmsset_notify_all dbs = Some dbs"
    by (simp add: llmsset_notify_all_def)
next
  fix cb
  assume cb: "dead_cb dbs = Some cb"
  have nov: "unat (0::u64) + unat (table_size dbs) < 2 ^ 64"
    using unsigned_less [of "table_size dbs", where ?'a = nat] by simp
  from notify_par_rel [OF cb nov] obtain dbs' where
    r: "llmsset_notify_par dbs 0 (table_size dbs) = Some dbs'"
    and s: "sweep_rel cb {i. 0 \<le> i \<and> i < 0 + table_size dbs} dbs dbs'"
    by blast
  have m: "llmsset_is_marked d i = marked_at (bitmap2 d) i" for d i
    by (simp add: llmsset_is_marked_def marked_at_def)
  have "llmsset_notify_all dbs = Some dbs'"
    using cb r by (simp add: llmsset_notify_all_def)
  moreover have "if i < table_size dbs \<and> \<not> llmsset_is_marked dbs i \<and> marked_at (bitmap3 dbs) i
              then (if cb i
                    then llmsset_is_marked dbs' i \<and> marked_at (bitmap3 dbs') i
                    else \<not> llmsset_is_marked dbs' i \<and> \<not> marked_at (bitmap3 dbs') i)
              else llmsset_is_marked dbs' i = llmsset_is_marked dbs i \<and>
                   marked_at (bitmap3 dbs') i = marked_at (bitmap3 dbs) i" for i
  proof -
    have a: "marked_at (bitmap2 dbs') i =
        (marked_at (bitmap2 dbs) i \<or> (i < table_size dbs \<and> marked_at (bitmap3 dbs) i \<and> cb i))"
      and b: "marked_at (bitmap3 dbs') i =
        (marked_at (bitmap3 dbs) i \<and>
         \<not> (i < table_size dbs \<and> \<not> marked_at (bitmap2 dbs) i \<and> \<not> cb i))"
      using s by (simp_all add: sweep_rel_def)
    show ?thesis
      by (cases "cb i"; cases "marked_at (bitmap2 dbs) i"; cases "marked_at (bitmap3 dbs) i";
          cases "i < table_size dbs"; simp add: m a b)
  qed
  ultimately show "\<exists>dbs'. llmsset_notify_all dbs = Some dbs' \<and>
         (\<forall>i. if i < table_size dbs \<and> \<not> llmsset_is_marked dbs i \<and> marked_at (bitmap3 dbs) i
              then (if cb i
                    then llmsset_is_marked dbs' i \<and> marked_at (bitmap3 dbs') i
                    else \<not> llmsset_is_marked dbs' i \<and> \<not> marked_at (bitmap3 dbs') i)
              else llmsset_is_marked dbs' i = llmsset_is_marked dbs i \<and>
                   marked_at (bitmap3 dbs') i = marked_at (bitmap3 dbs) i)"
    by blast
qed

theorem notify_all_sweep_witness:
  "\<exists>dbs'. llmsset_notify_all notify_table = Some dbs' \<and>
     llmsset_is_marked dbs' 5 \<and> marked_at (bitmap3 dbs') 5 \<and>
     \<not> llmsset_is_marked dbs' 6 \<and> \<not> marked_at (bitmap3 dbs') 6 \<and>
     llmsset_is_marked dbs' 1 \<and> \<not> llmsset_is_marked dbs' 7"
proof -
  have cb: "dead_cb notify_table = Some (\<lambda>i. i = 5)"
    by (simp add: notify_table_def llmsset_set_ondead_def)
  from notify_all_sweep [of notify_table] cb obtain dbs' where
    r: "llmsset_notify_all notify_table = Some dbs'"
    and s: "\<And>i. if i < table_size notify_table \<and> \<not> llmsset_is_marked notify_table i \<and>
                  marked_at (bitmap3 notify_table) i
              then (if i = 5
                    then llmsset_is_marked dbs' i \<and> marked_at (bitmap3 dbs') i
                    else \<not> llmsset_is_marked dbs' i \<and> \<not> marked_at (bitmap3 dbs') i)
              else llmsset_is_marked dbs' i = llmsset_is_marked notify_table i \<and>
                   marked_at (bitmap3 dbs') i = marked_at (bitmap3 notify_table) i"
    by blast
  have f5: "5 < table_size notify_table \<and> \<not> llmsset_is_marked notify_table 5 \<and>
      marked_at (bitmap3 notify_table) 5"
    by code_simp
  have f6: "6 < table_size notify_table \<and> \<not> llmsset_is_marked notify_table 6 \<and>
      marked_at (bitmap3 notify_table) 6"
    by code_simp
  have f1: "llmsset_is_marked notify_table 1"
    by code_simp
  have f7: "\<not> llmsset_is_marked notify_table 7 \<and> \<not> marked_at (bitmap3 notify_table) 7"
    by code_simp
  show ?thesis
    using r s [of 5] s [of 6] s [of 1] s [of 7] f5 f6 f1 f7
    by simp
qed

section \<open>What the allocator returns\<close>

lemma clz_from_spec:
  "\<exists>k<n. bit x k \<Longrightarrow>
   clz_from n x < n \<and> bit x (n - 1 - clz_from n x) \<and>
   (\<forall>k. n - 1 - clz_from n x < k \<and> k < n \<longrightarrow> \<not> bit x k)"
proof (induction n)
  case 0
  then show ?case by simp
next
  case (Suc n)
  show ?case
  proof (cases "bit x n")
    case True
    then show ?thesis by (auto simp: less_Suc_eq)
  next
    case False
    with Suc.prems have "\<exists>k<n. bit x k"
      by (metis less_Suc_eq)
    from Suc.IH [OF this] False show ?thesis
      by (auto simp: less_Suc_eq Suc_diff_Suc)
  qed
qed

lemma clzl_spec:
  assumes "x \<noteq> 0"
  shows "clzl x < 64 \<and> bit x (63 - clzl x) \<and> (\<forall>k. 63 - clzl x < k \<and> k < 64 \<longrightarrow> \<not> bit x k)"
proof -
  have "\<exists>k<64. bit x k"
  proof (rule ccontr)
    assume "\<not> (\<exists>k<64. bit x k)"
    then have "x = 0"
      by (intro bit_word_eqI) simp
    with assms show False by simp
  qed
  from clz_from_spec [OF this] show ?thesis
    by (simp add: clzl_def)
qed

lemma index_of_parts:
  fixes r :: u64
  assumes "unat r < 2 ^ 55" "i < 8" "j < 64"
  shows "unat ((8 * r + of_nat i) * 64 + of_nat j :: u64) = (8 * unat r + i) * 64 + j"
proof -
  have "(8 * r + of_nat i) * 64 + of_nat j = (of_nat ((8 * unat r + i) * 64 + j) :: u64)"
    by simp
  moreover have "(8 * unat r + i) * 64 + j < 2 ^ 64"
    using assms by simp
  ultimately show ?thesis
    by (simp only: unat_of_nat) simp
qed

lemma ptr_of_parts:
  fixes r :: u64
  assumes "unat r < 2 ^ 55" "i < 8"
  shows "unat (r * 8 + of_nat i :: u64) = 8 * unat r + i"
proof -
  have "r * 8 + of_nat i = (of_nat (8 * unat r + i) :: u64)"
    by simp
  moreover have "8 * unat r + i < 2 ^ 64"
    using assms by simp
  ultimately show ?thesis
    by (simp only: unat_of_nat) simp
qed

lemma top_shift: "j < 64 \<Longrightarrow> drop_bit j (0x8000000000000000::u64) = push_bit (63 - j) 1"
proof (rule bit_word_eqI)
  fix n
  assume "j < 64" "n < LENGTH(64)"
  then show "bit (drop_bit j (0x8000000000000000::u64)) n = bit (push_bit (63 - j) (1::u64)) n"
    by (simp only: bit_drop_bit_eq bit_top comp_def) (auto simp: bit_simps)
qed


lemma all_ones: "(0xffffffffffffffff::u64) = - 1"
  by simp

lemma scan_region_claims:
  assumes r: "unat r < 2 ^ 55"
  shows "scan_region bm r (r * 8 + of_nat i) i = Some (c, bm1) \<Longrightarrow>
         \<not> marked_at bm c \<and> bm1 = bm(bit_ptr c := bm (bit_ptr c) OR bit_mask c) \<and>
         unat c div 512 = unat r"
proof (induction "8 - i" arbitrary: i)
  case 0
  then have "\<not> i < 8"
    by simp
  with 0(2) show ?case
    by (subst (asm) scan_region.simps) simp
next
  case (Suc n)
  then have i: "i < 8"
    by simp
  define ptr where "ptr = r * 8 + (of_nat i :: u64)"
  define v where "v = bm ptr"
  show ?case
  proof (cases "v = - 1")
    case True
    have "ptr + 1 = r * 8 + of_nat (Suc i)"
      by (simp add: ptr_def)
    moreover have "scan_region bm r ptr i = scan_region bm r (ptr + 1) (i + 1)"
      using True i by (subst scan_region.simps) (simp add: v_def all_ones)
    ultimately have "scan_region bm r (r * 8 + of_nat (Suc i)) (Suc i) = Some (c, bm1)"
      using Suc.prems by (simp add: ptr_def ac_simps)
    moreover have "n = 8 - Suc i"
      using Suc.hyps(2) by simp
    ultimately show ?thesis
      using Suc.hyps(1) by blast
  next
    case False
    define j where "j = clzl (NOT v)"
    have "NOT v \<noteq> 0"
    proof
      assume "NOT v = 0"
      then have "NOT (NOT v) = NOT 0"
        by (simp only:)
      with False show False
        by simp
    qed
    from clzl_spec [OF this] have j: "j < 64" and vj: "\<not> bit v (63 - j)"
      by (auto simp: j_def bit_simps)
    have "scan_region bm r ptr i =
        Some ((8 * r + of_nat i) * 64 + of_nat j, bm(ptr := v OR drop_bit j 0x8000000000000000))"
      using False i
      by (subst scan_region.simps) (simp add: v_def j_def Let_def all_ones)
    with Suc.prems
    have c: "c = (8 * r + of_nat i) * 64 + of_nat j"
      and bm1: "bm1 = bm(ptr := v OR drop_bit j 0x8000000000000000)"
      by (simp_all add: ptr_def)
    have uc: "unat c = (8 * unat r + i) * 64 + j"
      unfolding c by (rule index_of_parts [OF r i j])
    have up: "unat ptr = 8 * unat r + i"
      unfolding ptr_def by (rule ptr_of_parts [OF r i])
    define a where "a = 8 * unat r + i"
    have uca: "unat c = a * 64 + j"
      by (simp only: uc a_def)
    have "unat c div 64 = a"
      unfolding uca using j by simp
    then have bp: "bit_ptr c = ptr"
      by (simp add: word_unat_eq_iff bit_ptr_unat up a_def)
    have cm: "unat c mod 64 = j"
      unfolding uca using j by simp
    have bmk: "bit_mask c = drop_bit j 0x8000000000000000"
      by (simp add: bit_mask_eq cm top_shift [OF j])
    have "\<not> marked_at bm c"
      using vj by (simp add: marked_at_def bit_test_iff bp cm v_def)
    moreover have "bm1 = bm(bit_ptr c := bm (bit_ptr c) OR bit_mask c)"
      by (simp add: bm1 bp bmk v_def)
    moreover have "unat c div 512 = unat r"
    proof -
      define e where "e = i * 64 + j"
      have "unat c = unat r * 512 + e"
        by (simp add: uc e_def)
      moreover have "e < 512"
        using i j by (simp add: e_def)
      ultimately show ?thesis
        by simp
    qed
    ultimately show ?thesis
      by simp
  qed
qed


lemma find_region_claims:
  "find_region bm1 n region count = Some (r, bm1') \<Longrightarrow> n \<noteq> 0 \<Longrightarrow>
   r < n \<and> \<not> marked_at bm1 r \<and> bm1' = bm1(bit_ptr r := bm1 (bit_ptr r) OR bit_mask r)"
proof (induction bm1 n region count rule: find_region.induct)
  case (1 bm1 n region count)
  define r1 where "r1 = (if region + 1 \<ge> n then 0 else region + 1)"
  have r1n: "r1 < n"
    using "1.prems"(2) by (auto simp: r1_def word_neq_0_conv)
  have c0: "count \<noteq> 0"
    using "1.prems"(1) by (subst (asm) find_region.simps) auto
  show ?case
  proof (cases "marked_at bm1 r1")
    case True
    then have cs: "cas_set_loop bm1 (r1 div 64)
        (drop_bit (unat (r1 AND 63)) 0x8000000000000000) = (False, bm1)"
      by (simp add: cas_set_loop_eq marked_at_def bit_ptr_def bit_mask_def)
    have "find_region bm1 n region count = find_region bm1 n r1 (count - 1)"
      using c0 cs by (subst find_region.simps) (simp add: Let_def r1_def)
    with "1.prems"(1) have rec: "find_region bm1 n r1 (count - 1) = Some (r, bm1')"
      by simp
    have "r < n \<and> \<not> marked_at (snd (False, bm1)) r \<and>
        bm1' = (snd (False, bm1))
          (bit_ptr r := snd (False, bm1) (bit_ptr r) OR bit_mask r)"
      by (rule "1.IH" [of "region + 1" r1 "(False, bm1)"])
         (use c0 cs rec "1.prems"(2) in \<open>simp_all add: r1_def\<close>)
    then show ?thesis
      by simp
  next
    case False
    then have cs: "cas_set_loop bm1 (r1 div 64)
        (drop_bit (unat (r1 AND 63)) 0x8000000000000000) =
        (True, bm1(bit_ptr r1 := bm1 (bit_ptr r1) OR bit_mask r1))"
      by (simp add: cas_set_loop_eq marked_at_def bit_ptr_def bit_mask_def)
    have "find_region bm1 n region count =
        Some (r1, bm1(bit_ptr r1 := bm1 (bit_ptr r1) OR bit_mask r1))"
      using c0 cs by (subst find_region.simps) (simp add: Let_def r1_def)
    with "1.prems"(1) False r1n show ?thesis
      by auto
  qed
qed


definition claim_post :: "llmsset \<Rightarrow> u64 \<Rightarrow> u64 \<times> llmsset \<Rightarrow> bool" where
  "claim_post dbs w y \<longleftrightarrow>
     alloc_frame dbs (snd y) \<and>
     (\<forall>w'. w' \<noteq> w \<longrightarrow> my_region (snd y) w' = my_region dbs w') \<and>
     (my_region (snd y) w = NO_REGION \<or> my_region (snd y) w < table_size dbs div 512) \<and>
     (if fst y = NO_REGION then bitmap2 (snd y) = bitmap2 dbs
      else \<not> marked_at (bitmap2 dbs) (fst y) \<and>
           bitmap2 (snd y) = (bitmap2 dbs)
             (bit_ptr (fst y) := bitmap2 dbs (bit_ptr (fst y)) OR bit_mask (fst y)) \<and>
           my_region (snd y) w \<noteq> NO_REGION \<and>
           unat (fst y) div 512 = unat (my_region (snd y) w) \<and>
           scan_region (bitmap2 dbs) (my_region (snd y) w) (my_region (snd y) w * 8) 0 =
             Some (fst y, bitmap2 (snd y)))"

lemma region_bound:
  fixes r ts :: u64
  assumes "r < ts div 512"
  shows "unat r < 2 ^ 55 - 1"
proof -
  have "unat ts < 2 ^ 64"
    using unsigned_less [of ts, where ?'a = nat] by simp
  then have "unat ts div 512 \<le> 2 ^ 55 - 1"
    by simp
  moreover have "unat r < unat ts div 512"
    using assms by (simp add: word_less_nat_alt unat_div)
  ultimately show ?thesis
    by simp
qed

lemma claim_post_scan:
  assumes "r < table_size dbs div 512" "my_region dbs w = r"
    and "scan_region (bitmap2 dbs) r (r * 8) 0 = Some found"
  shows "claim_post dbs w (fst found, dbs\<lparr>bitmap2 := snd found\<rparr>)"
proof -
  have rb: "unat r < 2 ^ 55 - 1"
    by (rule region_bound [OF assms(1)])
  then have rb': "unat r < 2 ^ 55"
    by simp
  have "scan_region (bitmap2 dbs) r (r * 8 + of_nat 0) 0 = Some (fst found, snd found)"
    using assms(3) by simp
  from scan_region_claims [OF rb' this]
  have f: "\<not> marked_at (bitmap2 dbs) (fst found)"
    "snd found = (bitmap2 dbs)
       (bit_ptr (fst found) := bitmap2 dbs (bit_ptr (fst found)) OR bit_mask (fst found))"
    "unat (fst found) div 512 = unat r"
    by simp_all
  have "unat NO_REGION div 512 = 2 ^ 55 - 1"
    by (simp add: NO_REGION_def unsigned_minus_1_eq_mask mask_eq_exp_minus_1)
  with f(3) rb have c: "fst found \<noteq> NO_REGION"
    by auto
  have rn: "r \<noteq> NO_REGION"
  proof
    assume "r = NO_REGION"
    then have "table_size dbs div 512 \<le> r"
      by (simp add: NO_REGION_def)
    with assms(1) show False
      by simp
  qed
  show ?thesis
    using f c rn assms
    by (simp add: claim_post_def alloc_frame_bitmap2 prod_eq_iff)
qed

lemma claim_post_fail:
  assumes "r = NO_REGION \<or> r < table_size dbs div 512" "my_region dbs w = r"
  shows "claim_post dbs w (NO_REGION, dbs)"
  using assms by (auto simp: claim_post_def alloc_frame_refl)

lemma claim_post_step:
  assumes "claim_post (dbs\<lparr>bitmap1 := x, my_region := (my_region dbs)(w := r')\<rparr>) w y"
  shows "claim_post dbs w y"
proof -
  have "alloc_frame dbs (snd y)"
    using assms by (auto simp: claim_post_def intro: alloc_frame_region)
  with assms show ?thesis
    by (simp add: claim_post_def cong: if_cong)
qed

lemma claim_loop_post:
  assumes "claim_loop dbs w r = Some y"
  shows "(r = NO_REGION \<or> r < table_size dbs div 512) \<longrightarrow> my_region dbs w = r \<longrightarrow>
         claim_post dbs w y"
proof (rule claim_loop.raw_induct
    [where P = "\<lambda>dbs w r y. (r = NO_REGION \<or> r < table_size dbs div 512) \<longrightarrow>
       my_region dbs w = r \<longrightarrow> claim_post dbs w y", OF _ assms], goal_cases)
  case (1 f dbs worker region y)
  show ?case
  proof (intro impI)
    assume ok: "region = NO_REGION \<or> region < table_size dbs div 512"
      and mr: "my_region dbs worker = region"
    show "claim_post dbs worker y"
    proof (cases "if region \<noteq> NO_REGION
            then scan_region (bitmap2 dbs) region (region * 8) 0 else None")
      case (Some found)
      then have rn: "region \<noteq> NO_REGION"
        and sc: "scan_region (bitmap2 dbs) region (region * 8) 0 = Some found"
        by (auto split: if_splits)
      from 1(2) Some have "y = (fst found, dbs\<lparr>bitmap2 := snd found\<rparr>)"
        by simp
      with claim_post_scan [OF _ mr sc] ok rn show ?thesis
        by simp
    next
      case None
      note scan = this
      show ?thesis
      proof (cases "if region \<noteq> NO_REGION then Some region
                    else first_region dbs worker region")
        case None
        with scan 1(2) show ?thesis
          by simp
      next
        case (Some region1)
        note reg = this
        show ?thesis
        proof (cases "find_region (bitmap1 dbs) (table_size dbs div (64 * 8)) region1
                         (table_size dbs div (64 * 8))")
          case None
          with scan reg 1(2) have "y = (NO_REGION, dbs)"
            by simp
          with claim_post_fail [OF ok mr] show ?thesis
            by simp
        next
          case (Some claimed)
          with scan reg 1(2) have rec:
            "f (dbs\<lparr>bitmap1 := snd claimed,
                    my_region := (my_region dbs)(worker := fst claimed)\<rparr>)
               worker (fst claimed) = Some y"
            by simp
          have n0: "table_size dbs div (64 * 8) \<noteq> 0"
            using Some by (subst (asm) find_region.simps) auto
          have "find_region (bitmap1 dbs) (table_size dbs div (64 * 8)) region1
                  (table_size dbs div (64 * 8)) = Some (fst claimed, snd claimed)"
            using Some by simp
          from find_region_claims [OF this n0]
          have lt: "fst claimed < table_size dbs div 512"
            by simp
          have "claim_post (dbs\<lparr>bitmap1 := snd claimed,
                    my_region := (my_region dbs)(worker := fst claimed)\<rparr>) worker y"
            using 1(1) [OF rec] lt by simp
          then show ?thesis
            by (rule claim_post_step)
        qed
      qed
    qed
  qed
qed

section \<open>The first region of a fresh worker\<close>

lemma find_region_first:
  assumes "r0 < n" "\<not> marked_at bm1 r0"
  shows "find_region bm1 n (NO_REGION + r0) n =
         Some (r0, bm1(bit_ptr r0 := bm1 (bit_ptr r0) OR bit_mask r0))"
proof -
  have n0: "n \<noteq> 0"
    using assms(1) by auto
  have r: "NO_REGION + r0 + 1 = r0"
    by (simp add: NO_REGION_def)
  have ge: "\<not> n \<le> r0"
    using assms(1) by simp
  show ?thesis
    using assms(2) n0 ge
    by (subst find_region.simps)
       (simp add: r Let_def cas_set_loop_eq marked_at_def bit_ptr_def bit_mask_def)
qed

text \<open>
  The scan of a region returns its first free slot: when some index of the region is
  free in \<open>bitmap2\<close>, the scan succeeds, and every index of the region below the one
  returned is taken.
\<close>

lemma div64_ge:
  fixes n :: nat
  assumes "A * 64 \<le> n"
  shows "A \<le> n div 64"
  using div_le_mono [OF assms, of 64] by simp

lemma div64_next:
  fixes n :: nat
  assumes "A \<le> n div 64" "n div 64 \<noteq> A"
  shows "(A + 1) * 64 \<le> n"
proof -
  from assms have "A + 1 \<le> n div 64"
    by simp
  then have "(A + 1) * 64 \<le> (n div 64) * 64"
    by (rule mult_le_mono1)
  also have "\<dots> \<le> n"
    by simp
  finally show ?thesis .
qed

lemma div64_within:
  fixes n :: nat
  assumes "A * 64 \<le> n" "n < A * 64 + j" "j \<le> 64"
  shows "n div 64 = A" and "n mod 64 < j"
proof -
  define e where "e = n - A * 64"
  have n: "n = A * 64 + e" and e: "e < j"
    using assms by (simp_all add: e_def)
  with assms(3) have "e < 64"
    by simp
  then show "n div 64 = A"
    unfolding n by simp
  from \<open>e < 64\<close> have "n mod 64 = e"
    unfolding n by simp
  with e show "n mod 64 < j"
    by simp
qed

lemma full_word_marked:
  assumes "bm (bit_ptr y) = - 1"
  shows "marked_at bm y"
proof -
  have "bit (- 1 :: u64) (63 - unat y mod 64)"
    by (simp add: bit_simps)
  with bit_test_iff [of "- 1" y] show ?thesis
    unfolding marked_at_def assms by blast
qed

lemma scan_region_first:
  fixes r x :: u64
  assumes r: "unat r < 2 ^ 55" and xr: "unat x div 512 = unat r"
    and fx: "\<not> marked_at bm x"
  shows "(8 * unat r + i) * 64 \<le> unat x \<Longrightarrow>
         \<exists>c bm1. scan_region bm r (r * 8 + of_nat i) i = Some (c, bm1) \<and> c \<le> x \<and>
            (\<forall>y. (8 * unat r + i) * 64 \<le> unat y \<and> y < c \<longrightarrow> marked_at bm y)"
proof (induction "8 - i" arbitrary: i)
  case 0
  then have "8 \<le> i"
    by simp
  then have "(8 * unat r + 8) * 64 \<le> (8 * unat r + i) * 64"
    by simp
  with 0(2) have "512 * unat r + 512 \<le> unat x"
    by simp
  moreover have "unat x = 512 * (unat x div 512) + unat x mod 512"
    by simp
  then have "unat x < 512 * unat r + 512"
    unfolding xr [symmetric]
    by (metis add_strict_left_mono mod_less_divisor zero_less_numeral)
  ultimately show ?case
    by simp
next
  case (Suc n)
  then have i: "i < 8"
    by simp
  define A where "A = 8 * unat r + i"
  define ptr where "ptr = r * 8 + (of_nat i :: u64)"
  define v where "v = bm ptr"
  have up: "unat ptr = A"
    unfolding ptr_def A_def by (rule ptr_of_parts [OF r i])
  have inword: "bit_ptr y = ptr" if "unat y div 64 = A" for y
    using that by (simp add: word_unat_eq_iff bit_ptr_unat up)
  have lo: "A * 64 \<le> unat x"
    using Suc.prems by (simp add: A_def)
  show ?case
  proof (cases "v = - 1")
    case True
    have full: "marked_at bm y" if "unat y div 64 = A" for y
      using inword [OF that] True by (simp add: full_word_marked v_def)
    have "unat x div 64 \<noteq> A"
      using fx full by blast
    from div64_next [OF div64_ge [OF lo] this]
    have "(8 * unat r + Suc i) * 64 \<le> unat x"
      by (simp add: A_def)
    moreover have "n = 8 - Suc i"
      using Suc.hyps(2) by simp
    ultimately obtain c bm1 where
      sc: "scan_region bm r (r * 8 + of_nat (Suc i)) (Suc i) = Some (c, bm1)"
      and cx: "c \<le> x"
      and below: "\<forall>y. (8 * unat r + Suc i) * 64 \<le> unat y \<and> y < c \<longrightarrow> marked_at bm y"
      using Suc.hyps(1) by blast
    have "ptr + 1 = r * 8 + of_nat (Suc i)"
      by (simp add: ptr_def)
    moreover have "scan_region bm r ptr i = scan_region bm r (ptr + 1) (i + 1)"
      using True i by (subst scan_region.simps) (simp add: v_def all_ones)
    ultimately have sc': "scan_region bm r (r * 8 + of_nat i) i = Some (c, bm1)"
      using sc by (simp add: ptr_def ac_simps)
    have "marked_at bm y" if y: "(8 * unat r + i) * 64 \<le> unat y" "y < c" for y
    proof (cases "unat y div 64 = A")
      case True
      then show ?thesis
        by (rule full)
    next
      case False
      have "A * 64 \<le> unat y"
        using y(1) by (simp add: A_def)
      from div64_next [OF div64_ge [OF this] False]
      have "(8 * unat r + Suc i) * 64 \<le> unat y"
        by (simp add: A_def)
      with below y(2) show ?thesis
        by blast
    qed
    with sc' cx show ?thesis
      by blast
  next
    case False
    define j where "j = clzl (NOT v)"
    have "NOT v \<noteq> 0"
    proof
      assume "NOT v = 0"
      then have "NOT (NOT v) = NOT 0"
        by (simp only:)
      with False show False
        by simp
    qed
    from clzl_spec [OF this] have j: "j < 64"
      and above: "\<forall>k. 63 - j < k \<and> k < 64 \<longrightarrow> \<not> bit (NOT v) k"
      by (simp_all add: j_def)
    have taken: "bit v k" if "63 - j < k" "k < 64" for k
      using above that by (auto simp: bit_simps)
    define c where "c = (8 * r + of_nat i) * 64 + (of_nat j :: u64)"
    have sc: "scan_region bm r (r * 8 + of_nat i) i =
        Some (c, bm(ptr := v OR drop_bit j 0x8000000000000000))"
      using False i
      by (subst scan_region.simps) (simp add: v_def j_def c_def ptr_def Let_def all_ones)
    have uc: "unat c = A * 64 + j"
      unfolding c_def A_def by (rule index_of_parts [OF r i j])
    have mk: "marked_at bm y \<longleftrightarrow> bit v (63 - unat y mod 64)" if "unat y div 64 = A" for y
      using inword [OF that] by (simp add: marked_at_def bit_test_iff v_def)
    have "unat c \<le> unat x"
    proof (cases "unat x div 64 = A")
      case True
      have "\<not> unat x mod 64 < j"
      proof
        assume "unat x mod 64 < j"
        then have "63 - j < 63 - unat x mod 64" "63 - unat x mod 64 < 64"
          using j by simp_all
        from taken [OF this] mk [OF True] fx show False
          by simp
      qed
      moreover have "unat x = (unat x div 64) * 64 + unat x mod 64"
        by simp
      ultimately show ?thesis
        unfolding uc True by simp
    next
      case False
      from div64_next [OF div64_ge [OF lo] False] j show ?thesis
        by (simp add: uc)
    qed
    then have cx: "c \<le> x"
      by (simp add: word_le_nat_alt)
    have "marked_at bm y" if y: "(8 * unat r + i) * 64 \<le> unat y" "y < c" for y
    proof -
      have a: "A * 64 \<le> unat y"
        using y(1) by (simp add: A_def)
      have b: "unat y < A * 64 + j"
        using y(2) by (simp add: word_less_nat_alt uc)
      have j64: "j \<le> 64"
        using j by simp
      note w = div64_within [OF a b j64]
      from w(2) j have "63 - j < 63 - unat y mod 64" "63 - unat y mod 64 < 64"
        by simp_all
      from taken [OF this] mk [OF w(1)] show ?thesis
        by simp
    qed
    with sc cx show ?thesis
      by blast
  qed
qed

text \<open>
  Claim C9, as the code has it.  A worker that owns no region starts its search at region
  \<open>(worker * (table_size / 512)) / workers\<close>, a region being 512 slots: when that region
  is unowned the worker claims it, and when the region has a free slot the call returns
  the first free slot of that region, the free index below which every index of the
  region is taken, and sets its bit.
\<close>

theorem first_use_region:
  assumes none: "my_region dbs w = NO_REGION"
    and workers: "lace_workers dbs \<noteq> 0"
    and r0: "r0 = (w * (table_size dbs div 512)) div lace_workers dbs"
    and range: "r0 < table_size dbs div 512"
    and unowned: "\<not> marked_at (bitmap1 dbs) r0"
    and free: "\<not> marked_at (bitmap2 dbs) x" and inside: "unat x div 512 = unat r0"
  shows "\<exists>c. claim_data_bucket dbs w =
           Some (c, dbs\<lparr>bitmap1 := (bitmap1 dbs)
                          (bit_ptr r0 := bitmap1 dbs (bit_ptr r0) OR bit_mask r0),
                        my_region := (my_region dbs)(w := r0),
                        bitmap2 := (bitmap2 dbs)
                          (bit_ptr c := bitmap2 dbs (bit_ptr c) OR bit_mask c)\<rparr>) \<and>
           unat c div 512 = unat r0 \<and> \<not> marked_at (bitmap2 dbs) c \<and>
           (\<forall>y. unat y div 512 = unat r0 \<and> y < c \<longrightarrow> marked_at (bitmap2 dbs) y)"
proof -
  have nr: "r0 \<noteq> NO_REGION"
  proof
    assume "r0 = NO_REGION"
    then have "table_size dbs div 512 \<le> r0"
      by (simp add: NO_REGION_def)
    with range show False
      by simp
  qed
  have fr: "first_region dbs w NO_REGION = Some (NO_REGION + r0)"
    using workers r0 by (simp add: first_region_def)
  have fd: "find_region (bitmap1 dbs) (table_size dbs div 512) (NO_REGION + r0)
              (table_size dbs div 512) =
            Some (r0, (bitmap1 dbs)(bit_ptr r0 := bitmap1 dbs (bit_ptr r0) OR bit_mask r0))"
    by (rule find_region_first [OF range unowned])
  have rb: "unat r0 < 2 ^ 55"
    using region_bound [OF range] by simp
  have start: "512 * unat r0 \<le> unat y" if "unat y div 512 = unat r0" for y :: u64
  proof -
    have "(unat y div 512) * 512 \<le> unat y"
      by simp
    then show ?thesis
      by (simp add: that)
  qed
  have "(8 * unat r0 + 0) * 64 \<le> unat x"
    using start [OF inside] by simp
  from scan_region_first [OF rb inside free this] obtain c bm1 where
    sc: "scan_region (bitmap2 dbs) r0 (r0 * 8 + of_nat 0) 0 = Some (c, bm1)"
    and below: "\<forall>y. (8 * unat r0 + 0) * 64 \<le> unat y \<and> y < c \<longrightarrow> marked_at (bitmap2 dbs) y"
    by blast
  from scan_region_claims [OF rb sc]
  have fc: "\<not> marked_at (bitmap2 dbs) c"
    and bm1: "bm1 = (bitmap2 dbs)(bit_ptr c := bitmap2 dbs (bit_ptr c) OR bit_mask c)"
    and cr: "unat c div 512 = unat r0"
    by simp_all
  have sc': "scan_region (bitmap2 dbs) r0 (r0 * 8) 0 = Some (c, bm1)"
    using sc by simp
  have cl: "claim_data_bucket dbs w =
         Some (c, dbs\<lparr>bitmap1 := (bitmap1 dbs)
                        (bit_ptr r0 := bitmap1 dbs (bit_ptr r0) OR bit_mask r0),
                      my_region := (my_region dbs)(w := r0),
                      bitmap2 := bm1\<rparr>)"
    unfolding claim_data_bucket_def none
    by (subst claim_loop.simps, simp add: fr fd, subst claim_loop.simps)
       (simp add: nr sc')
  have "marked_at (bitmap2 dbs) y" if "unat y div 512 = unat r0" "y < c" for y
    using below start [OF that(1)] that(2) by simp
  with cl fc cr show ?thesis
    unfolding bm1 by blast
qed

text \<open>
  At the start of a collection on the table of two workers, region 4 holds the marked
  indices 2048, 2049 and 2051.  Worker 1 claims region 4 and receives index 2050, the
  first free slot, although index 2060 is free as well.
\<close>

theorem first_use_region_witness:
  "\<exists>dbs'. claim_data_bucket collected_table 1 = Some (2050, dbs') \<and> my_region dbs' 1 = 4 \<and>
     marked_at (bitmap2 collected_table) 2048 \<and> marked_at (bitmap2 collected_table) 2049 \<and>
     \<not> marked_at (bitmap2 collected_table) 2050 \<and> marked_at (bitmap2 dbs') 2050"
proof -
  have none: "my_region collected_table 1 = NO_REGION"
    by code_simp
  have workers: "lace_workers collected_table \<noteq> 0"
    by code_simp
  have r0: "4 = (1 * (table_size collected_table div 512)) div lace_workers collected_table"
    by code_simp
  have range: "4 < table_size collected_table div 512"
    by code_simp
  have unowned: "\<not> marked_at (bitmap1 collected_table) 4"
    by code_simp
  have free: "\<not> marked_at (bitmap2 collected_table) 2060"
    by code_simp
  have inside: "unat (2060 :: u64) div 512 = unat (4 :: u64)"
    by simp
  have mk: "marked_at (bitmap2 collected_table) 2048" "marked_at (bitmap2 collected_table) 2049"
    "\<not> marked_at (bitmap2 collected_table) 2050"
    by code_simp+
  have ev: "map_option fst (claim_data_bucket collected_table 1) = Some 2050"
    by code_simp
  from first_use_region [OF none workers r0 range unowned free inside] obtain c where
    cl: "claim_data_bucket collected_table 1 =
           Some (c, collected_table\<lparr>bitmap1 := (bitmap1 collected_table)
                          (bit_ptr 4 := bitmap1 collected_table (bit_ptr 4) OR bit_mask 4),
                        my_region := (my_region collected_table)(1 := 4),
                        bitmap2 := (bitmap2 collected_table)
                          (bit_ptr c := bitmap2 collected_table (bit_ptr c) OR bit_mask c)\<rparr>)"
    by blast
  with ev have c: "c = 2050"
    by simp
  have "marked_at ((bitmap2 collected_table)
      (bit_ptr 2050 := bitmap2 collected_table (bit_ptr 2050) OR bit_mask 2050)) 2050"
    by (simp add: marked_at_set)
  with cl mk show ?thesis
    unfolding c by simp
qed

text \<open>
  Claim C9 as stated fails.  With 4096 slots and two workers the stated formula
  \<open>(worker * (table_size / 4096)) / workers\<close> sends worker 1 to region 0.  Region 0 is
  unowned and has a free slot (index 2), but the allocator claims region 4 and returns
  index 2048, and region 0 stays unowned.
\<close>

theorem first_use_region_counterexample:
  "my_region two_worker_table 1 = NO_REGION \<and>
   spec_first_region two_worker_table 1 = 0 \<and>
   \<not> marked_at (bitmap1 two_worker_table) 0 \<and>
   map_option fst (scan_region (bitmap2 two_worker_table) 0 (0 * 8) 0) = Some 2 \<and>
   map_option (\<lambda>r. (fst r, my_region (snd r) 1, marked_at (bitmap1 (snd r)) 0))
     (claim_data_bucket two_worker_table 1) = Some (2048, 4, False)"
  by code_simp

section \<open>What a lookup does\<close>

text \<open>
  The state a successful insertion leaves: the payload written, the directory slot
  published, and the call of \<open>set_custom_bucket\<close> of line 210.
\<close>

definition publish :: "llmsset \<Rightarrow> u64 \<Rightarrow> u64 \<Rightarrow> bool \<Rightarrow> u64 \<Rightarrow> u64 \<Rightarrow> u64 \<Rightarrow> llmsset" where
  "publish dbs1 a b custom hash idx cidx =
     (let dbs2 = dbs1\<lparr>data := (data dbs1)(2 * cidx := a, 2 * cidx + 1 := b),
                      table := (table dbs1)(idx := hash OR cidx)\<rparr>
      in if custom \<or> hash_cb dbs2 \<noteq> None then set_custom_bucket dbs2 cidx custom else dbs2)"

lemma lookup_empty_seq:
  assumes "table dbs idx = 0"
  shows "lookup_empty dbs w a b custom hash idx 0 =
     (case claim_data_bucket dbs w of
        None \<Rightarrow> None
      | Some cd \<Rightarrow>
          Some (Inl (if fst cd = NO_REGION then (ClaimFailed, snd cd)
                     else (Created (fst cd), publish (snd cd) a b custom hash idx (fst cd)))))"
proof (cases "claim_data_bucket dbs w")
  case None
  then show ?thesis
    by (simp add: lookup_empty_def)
next
  case (Some cd)
  then have "claim_data_bucket dbs w = Some (fst cd, snd cd)"
    by simp
  from claim_data_bucket_frame [OF this] assms have "table (snd cd) idx = 0"
    by (simp add: alloc_frame_def)
  with Some show ?thesis
    by (simp add: lookup_empty_def cas_def Let_def publish_def)
qed

lemma lookup_match_seq:
  "lookup_match dbs a b custom hash v 0 =
     (if hash = v AND MASK_HASH then
        (if custom
         then (case equals_cb dbs of
                 None \<Rightarrow> None
               | Some eq \<Rightarrow>
                   if eq a b (data dbs (2 * (v AND MASK_INDEX)))
                        (data dbs (2 * (v AND MASK_INDEX) + 1))
                   then Some (Some (Found (v AND MASK_INDEX), dbs)) else Some None)
         else if data dbs (2 * (v AND MASK_INDEX)) = a \<and>
                 data dbs (2 * (v AND MASK_INDEX) + 1) = b
              then Some (Some (Found (v AND MASK_INDEX), dbs)) else Some None)
      else Some None)"
  by (simp add: lookup_match_def Let_def)

lemma lookup_loop_seq:
  "lookup_loop dbs w a b custom hash hr idx last_idx 0 i =
     (if table dbs idx = 0 then
        (case claim_data_bucket dbs w of
           None \<Rightarrow> None
         | Some cd \<Rightarrow>
             Some (if fst cd = NO_REGION then (ClaimFailed, snd cd)
                   else (Created (fst cd), publish (snd cd) a b custom hash idx (fst cd))))
      else (case lookup_match dbs a b custom hash (table dbs idx) 0 of
              None \<Rightarrow> None
            | Some (Some res) \<Rightarrow> Some res
            | Some None \<Rightarrow>
                (if probe_next idx = last_idx then
                   (if i + 1 = threshold dbs then Some (ProbeExhausted, dbs)
                    else (case hash_step dbs custom a b hr of
                            None \<Rightarrow> None
                          | Some hr' \<Rightarrow>
                              (case probe_start dbs hr' of
                                 None \<Rightarrow> None
                               | Some st \<Rightarrow>
                                   lookup_loop dbs w a b custom hash hr' st st 0 (i + 1))))
                 else lookup_loop dbs w a b custom hash hr (probe_next idx) last_idx 0 i)))"
  by (subst lookup_loop.simps) (simp add: lookup_empty_seq split: option.splits)


definition lookup_post ::
  "llmsset \<Rightarrow> u64 \<Rightarrow> u64 \<Rightarrow> u64 \<Rightarrow> bool \<Rightarrow> u64 \<Rightarrow> outcome \<times> llmsset \<Rightarrow> bool" where
  "lookup_post dbs w a b custom hash y \<longleftrightarrow>
     (case fst y of
        ClaimFailed \<Rightarrow> claim_data_bucket dbs w = Some (NO_REGION, snd y)
      | ProbeExhausted \<Rightarrow> snd y = dbs
      | Created c \<Rightarrow>
          c \<noteq> NO_REGION \<and>
          (\<exists>dbs1 idx. claim_data_bucket dbs w = Some (c, dbs1) \<and> table dbs idx = 0 \<and>
             snd y = publish dbs1 a b custom hash idx c)
      | Found d \<Rightarrow>
          snd y = dbs \<and>
          (\<exists>idx. table dbs idx \<noteq> 0 \<and> hash = table dbs idx AND MASK_HASH \<and>
             d = table dbs idx AND MASK_INDEX \<and>
             (if custom
              then (\<exists>eq. equals_cb dbs = Some eq \<and>
                      eq a b (data dbs (2 * d)) (data dbs (2 * d + 1)))
              else data dbs (2 * d) = a \<and> data dbs (2 * d + 1) = b)))"

lemma lookup_match_post:
  assumes "lookup_match dbs a b custom hash (table dbs idx) 0 = Some (Some res)"
    and "table dbs idx \<noteq> 0"
  shows "lookup_post dbs w a b custom hash res"
  using assms
  by (auto simp: lookup_match_seq lookup_post_def split: if_splits option.splits)

lemma lookup_loop_post:
  assumes "lookup_loop dbs w a b custom hash hr idx last_idx cidx i = Some y"
  shows "cidx = 0 \<longrightarrow> lookup_post dbs w a b custom hash y"
proof (rule lookup_loop.raw_induct
    [where P = "\<lambda>dbs w a b custom hash hr idx last_idx cidx i y.
       cidx = 0 \<longrightarrow> lookup_post dbs w a b custom hash y", OF _ assms], goal_cases)
  case (1 f dbs w a b custom hash hr idx last_idx cidx i y)
  show ?case
  proof
    assume c0: "cidx = 0"
    show "lookup_post dbs w a b custom hash y"
    proof (cases "table dbs idx = 0")
      case True
      with 1(2) c0 obtain cd where cl: "claim_data_bucket dbs w = Some cd"
        and y: "y = (if fst cd = NO_REGION then (ClaimFailed, snd cd)
                     else (Created (fst cd), publish (snd cd) a b custom hash idx (fst cd)))"
        by (auto simp: lookup_empty_seq split: option.splits)
      show ?thesis
      proof (cases "fst cd = NO_REGION")
        case True
        with cl y show ?thesis
          by (simp add: lookup_post_def prod_eq_iff)
      next
        case False
        have "claim_data_bucket dbs w = Some (fst cd, snd cd) \<and> table dbs idx = 0 \<and>
            snd y = publish (snd cd) a b custom hash idx (fst cd)"
          using cl y False \<open>table dbs idx = 0\<close> by simp
        then have "\<exists>dbs1 idx. claim_data_bucket dbs w = Some (fst cd, dbs1) \<and>
            table dbs idx = 0 \<and> snd y = publish dbs1 a b custom hash idx (fst cd)"
          by blast
        with y False show ?thesis
          by (simp add: lookup_post_def)
      qed
    next
      case False
      show ?thesis
      proof (cases "lookup_match dbs a b custom hash (table dbs idx) 0")
        case None
        with 1(2) c0 False show ?thesis
          by simp
      next
        case (Some m)
        show ?thesis
        proof (cases m)
          case (Some res)
          with \<open>lookup_match dbs a b custom hash (table dbs idx) 0 = Some m\<close>
          have "lookup_match dbs a b custom hash (table dbs idx) 0 = Some (Some res)"
            by simp
          from lookup_match_post [OF this False] 1(2) c0 False this show ?thesis
            by simp
        next
          case None
          with \<open>lookup_match dbs a b custom hash (table dbs idx) 0 = Some m\<close>
          have m: "lookup_match dbs a b custom hash (table dbs idx) 0 = Some None"
            by simp
          show ?thesis
          proof (cases "probe_next idx = last_idx")
            case False
            with 1(2) c0 \<open>table dbs idx \<noteq> 0\<close> m have
              "f dbs w a b custom hash hr (probe_next idx) last_idx 0 i = Some y"
              by simp
            from 1(1) [OF this] show ?thesis
              by simp
          next
            case True
            show ?thesis
            proof (cases "i + 1 = threshold dbs")
              case True
              with 1(2) c0 \<open>table dbs idx \<noteq> 0\<close> m \<open>probe_next idx = last_idx\<close>
              show ?thesis
                by (auto simp: lookup_post_def)
            next
              case False
              with 1(2) c0 \<open>table dbs idx \<noteq> 0\<close> m \<open>probe_next idx = last_idx\<close>
              obtain hr' st where
                "f dbs w a b custom hash hr' st st 0 (i + 1) = Some y"
                by (auto split: option.splits)
              from 1(1) [OF this] show ?thesis
                by simp
            qed
          qed
        qed
      qed
    qed
  qed
qed

lemma llmsset_lookup2_post:
  assumes "llmsset_lookup2 dbs w a b custom = Some y"
  shows "\<exists>h. hash_step dbs custom a b FNV_SEED = Some h \<and>
           lookup_post dbs w a b custom (h AND MASK_HASH) y"
  using assms lookup_loop_post
  by (auto simp: llmsset_lookup2_def split: option.splits)


lemma set_clear_bit:
  fixes v m :: u64
  assumes "v AND m = 0"
  shows "(v OR m) AND NOT m = v"
proof (rule bit_word_eqI)
  fix n
  assume "n < LENGTH(64)"
  have "\<not> (bit v n \<and> bit m n)"
    using assms by (metis bit_and_iff bit_0_eq bot_apply bot_bool_def)
  then show "bit ((v OR m) AND NOT m) n = bit v n"
    by (auto simp: bit_simps dest: bit_imp_le_length)
qed

lemma llmsset_lookup_created:
  assumes "llmsset_lookup dbs w a b = Some (c, Some True, dbs')"
  shows "llmsset_lookup2 dbs w a b False = Some (Created c, dbs')"
proof -
  from assms obtain oc where l: "llmsset_lookup2 dbs w a b False = Some (oc, dbs')"
    and r: "ret_index oc = c" "ret_created oc = Some True"
    by (auto simp: llmsset_lookup_def)
  from r have "oc = Created c"
    by (cases oc) simp_all
  with l show ?thesis
    by simp
qed

section \<open>A default insertion on a table with a custom hash\<close>

text \<open>
  Claim C10.  When a hash callback is registered, a call of \<open>llmsset_lookup\<close> that
  creates an entry does all of the following.  The allocator hands out the index and sets
  its \<open>bitmap2\<close> bit; the payload is written at the index; an empty directory slot is
  published with the tag of the default hash and the index; and line 210 calls
  \<open>set_custom_bucket\<close> with \<open>custom = 0\<close>, which clears the bit the allocator has just
  set.  Afterwards \<open>llmsset_is_marked\<close> on the index is false, and the next call of the
  allocator by the same worker returns the same index.  The worker's region cell is
  assumed to be \<open>-1\<close> or a region of the table, as the allocator leaves it.
\<close>

theorem default_insert_clears_occupancy:
  assumes cb: "hash_cb dbs \<noteq> None"
    and wf: "my_region dbs w = NO_REGION \<or> my_region dbs w < table_size dbs div 512"
    and lk: "llmsset_lookup dbs w a b = Some (c, Some True, dbs')"
  shows "\<exists>dbs1 idx.
           claim_data_bucket dbs w = Some (c, dbs1) \<and> llmsset_is_marked dbs1 c \<and>
           table dbs idx = 0 \<and>
           table dbs' = (table dbs)(idx := (rehash16_mul a b FNV_SEED AND MASK_HASH) OR c) \<and>
           data dbs' = (data dbs)(2 * c := a, 2 * c + 1 := b) \<and>
           bitmap2 dbs' = (bitmap2 dbs1)
             (bit_ptr c := bitmap2 dbs1 (bit_ptr c) AND NOT (bit_mask c)) \<and>
           \<not> llmsset_is_marked dbs' c \<and>
           (\<exists>dbs''. claim_data_bucket dbs' w = Some (c, dbs''))"
proof -
  from llmsset_lookup2_post [OF llmsset_lookup_created [OF lk]] obtain h where
    hs: "hash_step dbs False a b FNV_SEED = Some h"
    and post: "lookup_post dbs w a b False (h AND MASK_HASH) (Created c, dbs')"
    by blast
  from hs have h: "h = rehash16_mul a b FNV_SEED"
    by (simp add: hash_step_def)
  from post obtain dbs1 idx where c: "c \<noteq> NO_REGION"
    and cl: "claim_data_bucket dbs w = Some (c, dbs1)"
    and empty: "table dbs idx = 0"
    and pub: "dbs' = publish dbs1 a b False (h AND MASK_HASH) idx c"
    by (auto simp: lookup_post_def)
  have "claim_post dbs w (c, dbs1)"
    using claim_loop_post [of dbs w "my_region dbs w" "(c, dbs1)"] cl wf
    by (simp add: claim_data_bucket_def)
  with c have free: "\<not> marked_at (bitmap2 dbs) c"
    and bm1: "bitmap2 dbs1 = (bitmap2 dbs)
        (bit_ptr c := bitmap2 dbs (bit_ptr c) OR bit_mask c)"
    and rn: "my_region dbs1 w \<noteq> NO_REGION"
    and sc: "scan_region (bitmap2 dbs) (my_region dbs1 w) (my_region dbs1 w * 8) 0 =
        Some (c, bitmap2 dbs1)"
    and fr: "alloc_frame dbs dbs1"
    by (simp_all add: claim_post_def)
  have cb1: "hash_cb dbs1 \<noteq> None"
    using fr cb by (simp add: alloc_frame_def same_config_def)
  have t1: "table dbs1 = table dbs" and d1: "data dbs1 = data dbs"
    using fr by (simp_all add: alloc_frame_def)
  have set1: "llmsset_is_marked dbs1 c"
    unfolding llmsset_is_marked_def bm1 fun_upd_same by (rule set_then_test)
  have tab: "table dbs' = (table dbs)(idx := (rehash16_mul a b FNV_SEED AND MASK_HASH) OR c)"
    using cb1 by (simp add: pub publish_def set_custom_bucket_def Let_def t1 h)
  have dat: "data dbs' = (data dbs)(2 * c := a, 2 * c + 1 := b)"
    using cb1 by (simp add: pub publish_def set_custom_bucket_def Let_def d1)
  have clr: "bitmap2 dbs' = (bitmap2 dbs1)
      (bit_ptr c := bitmap2 dbs1 (bit_ptr c) AND NOT (bit_mask c))"
    using cb1 by (simp add: pub publish_def set_custom_bucket_def Let_def)
  have "bitmap2 dbs (bit_ptr c) AND bit_mask c = 0"
    using free by (simp add: marked_at_def)
  then have "(bitmap2 dbs (bit_ptr c) OR bit_mask c) AND NOT (bit_mask c) =
      bitmap2 dbs (bit_ptr c)"
    by (rule set_clear_bit)
  then have bm': "bitmap2 dbs' = bitmap2 dbs"
    using cb1 by (simp add: pub publish_def set_custom_bucket_def Let_def bm1)
  have mr': "my_region dbs' = my_region dbs1"
    using cb1 by (simp add: pub publish_def set_custom_bucket_def Let_def)
  have nm: "\<not> llmsset_is_marked dbs' c"
    using free by (simp add: llmsset_is_marked_def marked_at_def bm')
  have again: "claim_data_bucket dbs' w = Some (c, dbs'\<lparr>bitmap2 := bitmap2 dbs1\<rparr>)"
    unfolding claim_data_bucket_def
    by (subst claim_loop.simps) (simp add: mr' rn bm' sc)
  from cl set1 empty tab dat clr nm again show ?thesis
    by blast
qed

text \<open>
  On the table with custom callbacks registered, \<open>llmsset_lookup\<close> of (7,11) creates
  index 2: the payload is in the cells 4 and 5, an empty directory slot now holds tag
  and index, the bit of index 2 is clear and the allocator returns 2 once more.
\<close>

theorem default_insert_clears_occupancy_witness:
  "\<exists>dbs'. llmsset_lookup custom_table 0 7 11 = Some (2, Some True, dbs') \<and>
     data dbs' 4 = 7 \<and> data dbs' 5 = 11 \<and>
     (\<exists>idx. table custom_table idx = 0 \<and> table dbs' idx = 0xdbada00000000002) \<and>
     \<not> llmsset_is_marked dbs' 2 \<and> (\<exists>dbs''. claim_data_bucket dbs' 0 = Some (2, dbs''))"
proof -
  have "map_option (\<lambda>r. (fst r, fst (snd r))) (llmsset_lookup custom_table 0 7 11) =
      Some (2, Some True)"
    by code_simp
  then obtain dbs' where lk: "llmsset_lookup custom_table 0 7 11 = Some (2, Some True, dbs')"
    by auto
  have cb: "hash_cb custom_table \<noteq> None"
    by (simp add: custom_table_def llmsset_set_custom_def)
  have wf: "my_region custom_table 0 = NO_REGION \<or>
      my_region custom_table 0 < table_size custom_table div 512"
    by code_simp
  have tag: "(rehash16_mul 7 11 FNV_SEED AND MASK_HASH) OR 2 = 0xdbada00000000002"
    by code_simp
  from default_insert_clears_occupancy [OF cb wf lk] obtain idx where
    e: "table custom_table idx = 0"
    and t: "table dbs' = (table custom_table)
        (idx := (rehash16_mul 7 11 FNV_SEED AND MASK_HASH) OR 2)"
    and d: "data dbs' = (data custom_table)(2 * 2 := 7, 2 * 2 + 1 := 11)"
    and n: "\<not> llmsset_is_marked dbs' 2"
    and a: "\<exists>dbs''. claim_data_bucket dbs' 0 = Some (2, dbs'')"
    by blast
  from t have "table dbs' idx = 0xdbada00000000002"
    by (simp add: tag)
  with e have "\<exists>idx. table custom_table idx = 0 \<and> table dbs' idx = 0xdbada00000000002"
    by blast
  moreover from d have "data dbs' 4 = 7" "data dbs' 5 = 11"
    by simp_all
  ultimately show ?thesis
    using lk n a by blast
qed

section \<open>Lookups on a table with a custom hash registered\<close>

text \<open>
  Claim C1 at a failing input.  On the table with custom callbacks registered, three
  calls of \<open>llmsset_lookup\<close> with the payloads (7,11), (7,12), (7,11): the second call
  is handed the index of the first, because the first insertion cleared its own
  occupancy bit, and overwrites the payload; the third call no longer finds (7,11) and
  inserts it again, with \<open>created\<close> set.
\<close>

theorem uniqueness_lost_with_custom_hash:
  "map_option fst (run custom_table [Lookup 0 7 11, Lookup 0 7 12, Lookup 0 7 11]) =
   Some [Returned 2 (Some True), Returned 2 (Some True), Returned 2 (Some True)]"
  by code_simp

text \<open>
  Claim C2 at a failing input.  After one call of \<open>llmsset_lookup\<close> with the payload
  (7,11) on the table with custom callbacks registered, the directory slot the payload
  hashes to is published with index 2, and the \<open>bitmap2\<close> bit of index 2 is clear.
\<close>

theorem occupancy_lost_with_custom_hash:
  "map_option
     (\<lambda>r. (table (snd r) (rehash16_mul 7 11 FNV_SEED mod 4096) \<noteq> 0,
            table (snd r) (rehash16_mul 7 11 FNV_SEED mod 4096) AND MASK_INDEX,
            llmsset_is_marked (snd r) 2))
     (run custom_table [Lookup 0 7 11]) = Some (True, 2, False)"
  by code_simp

section \<open>Lookups after a rehash sweep\<close>

text \<open>
  Claim C3 at a failing input.  The rehash sweep re-inserts every index whose \<open>bitmap2\<close>
  bit is set, the two reserved indices 0 and 1 included, with the payload (0,0) that
  fresh memory holds there.  After \<open>llmsset_clear\<close> and \<open>llmsset_rehash\<close> on a new
  table, \<open>llmsset_lookup\<close> of (0,0) returns 0 through the return statement for a found
  payload, with \<open>created\<close> set to false: the probe budget is not exhausted and the
  allocator is not asked.
\<close>

theorem reserved_index_found_after_rehash:
  "map_option fst (run small_table [Clear, Rehash, Lookup 0 0 0]) =
     Some [Done, Done, Returned 0 (Some False)] \<and>
   map_option (\<lambda>r. map_option fst (llmsset_lookup2 (snd r) 0 0 0 False))
     (run small_table [Clear, Rehash]) = Some (Some (Found 0))"
  by code_simp

section \<open>The probe sequence within a cache line\<close>

text \<open>
  The step of the probe sequence keeps the cache line of a slot and advances the position
  within the line modulo 8.  Eight steps lead back to the start, so the test
  \<open>idx == last\<close> of each probing loop is reached after the eight slots of a line.
\<close>

lemma CL_MASK_R_eq: "CL_MASK_R = mask 3"
  by (simp add: CL_MASK_R_def LINE_SIZE_def mask_eq_exp_minus_1)

lemma CL_MASK_eq: "CL_MASK = NOT (mask 3)"
  by (simp add: CL_MASK_def LINE_SIZE_def mask_eq_exp_minus_1)

lemma probe_next_iter:
  "(probe_next ^^ k) x = (x AND NOT (mask 3)) OR ((x + of_nat k) AND mask 3)"
proof (induction k)
  case 0
  show ?case
    by (rule bit_word_eqI) (auto simp: bit_simps)
next
  case (Suc k)
  define y where "y = (x AND NOT (mask 3)) OR ((x + of_nat k) AND mask 3)"
  have low: "y AND mask 3 = (x + of_nat k) AND mask 3"
    unfolding y_def by (rule bit_word_eqI) (auto simp: bit_simps)
  have high: "y AND NOT (mask 3) = x AND NOT (mask 3)"
    unfolding y_def by (rule bit_word_eqI) (auto simp: bit_simps)
  have "(y + 1) AND mask 3 = ((y AND mask 3) + 1) AND mask 3"
    by (simp only: mask_eqs)
  also have "\<dots> = (((x + of_nat k) AND mask 3) + 1) AND mask 3"
    by (simp only: low)
  also have "\<dots> = (x + of_nat k + 1) AND mask 3"
    by (simp only: mask_eqs)
  finally have "(y + 1) AND mask 3 = (x + of_nat (Suc k)) AND mask 3"
    by (simp add: ac_simps)
  then have "probe_next y = (x AND NOT (mask 3)) OR ((x + of_nat (Suc k)) AND mask 3)"
    by (simp add: probe_next_def CL_MASK_eq CL_MASK_R_eq high)
  then show ?case
    by (simp add: Suc.IH y_def)
qed

lemma probe_next_cycle: "(probe_next ^^ 8) x = x"
proof -
  have "(8::u64) AND mask 3 = 0"
    by (simp add: mask_eq_exp_minus_1)
  then have "(x + 8) AND mask 3 = (x + 0) AND mask 3"
    by (metis mask_eqs(2))
  then have "(probe_next ^^ 8) x = (x AND NOT (mask 3)) OR (x AND mask 3)"
    using probe_next_iter [of 8 x] by simp
  also have "\<dots> = x"
    by (rule bit_word_eqI) (auto simp: bit_simps)
  finally show ?thesis .
qed


section \<open>The re-insertion loop returns\<close>

text \<open>
  The loop of \<open>llmsset_rehash_bucket\<close> on the default path: every cache line costs one
  unit of the probe budget, and within a line at most eight steps are taken.
\<close>

lemma record_table_same: "dbs\<lparr>table := table dbs\<rparr> = dbs"
  by simp

lemma rehash_loop_step:
  "rehash_loop dbs a b custom new_v hr idx last_idx i =
     (if table dbs idx = 0 then Some (True, dbs\<lparr>table := (table dbs)(idx := new_v)\<rparr>)
      else if probe_next idx = last_idx then
        (if i + 1 = threshold dbs then Some (False, dbs)
         else (case hash_step dbs custom a b hr of
                 None \<Rightarrow> None
               | Some hr' \<Rightarrow>
                   (case probe_start dbs hr' of
                      None \<Rightarrow> None
                    | Some st \<Rightarrow> rehash_loop dbs a b custom new_v hr' st st (i + 1))))
      else rehash_loop dbs a b custom new_v hr (probe_next idx) last_idx i)"
  by (subst rehash_loop.simps) (simp add: cas_def Let_def split: option.splits)

lemma probe_start_some:
  assumes "LLMSSET_MASK dbs \<or> table_size dbs \<noteq> 0"
  shows "\<exists>st. probe_start dbs h = Some st"
  using assms by (cases "LLMSSET_MASK dbs") (simp_all add: probe_start_def)

lemma rehash_loop_total:
  assumes cfg: "LLMSSET_MASK dbs \<or> table_size dbs \<noteq> 0"
  shows "i < threshold dbs \<Longrightarrow> 1 \<le> k \<Longrightarrow> k \<le> 8 \<Longrightarrow> (probe_next ^^ k) idx = last_idx \<Longrightarrow>
         \<exists>y. rehash_loop dbs a b False new_v hr idx last_idx i = Some y"
proof (induction "9 * nat (threshold dbs - i) + k" arbitrary: i k idx last_idx hr
    rule: less_induct)
  case less
  show ?case
  proof (cases "table dbs idx = 0")
    case True
    then show ?thesis
      by (subst rehash_loop_step) auto
  next
    case False
    note nz = this
    show ?thesis
    proof (cases "probe_next idx = last_idx")
      case True
      show ?thesis
      proof (cases "i + 1 = threshold dbs")
        case True
        with nz \<open>probe_next idx = last_idx\<close> show ?thesis
          by (subst rehash_loop_step) auto
      next
        case False
        obtain st where st: "probe_start dbs (rehash16_mul a b hr) = Some st"
          using probe_start_some [OF cfg] by blast
        have lt: "i + 1 < threshold dbs"
          using False less.prems(1) by simp
        have m: "9 * nat (threshold dbs - (i + 1)) + 8 < 9 * nat (threshold dbs - i) + k"
          using less.prems(1,2) by simp
        have "\<exists>y. rehash_loop dbs a b False new_v (rehash16_mul a b hr) st st (i + 1) = Some y"
          by (rule less.hyps [OF m lt _ _ probe_next_cycle]) simp_all
        then obtain y where
          "rehash_loop dbs a b False new_v (rehash16_mul a b hr) st st (i + 1) = Some y"
          by blast
        with nz \<open>probe_next idx = last_idx\<close> False st show ?thesis
          by (subst rehash_loop_step) (simp add: hash_step_def)
      qed
    next
      case False
      have k2: "2 \<le> k"
      proof (rule ccontr)
        assume "\<not> 2 \<le> k"
        with less.prems(2) have "k = 1"
          by simp
        with less.prems(4) False show False
          by simp
      qed
      then obtain k' where k': "k = Suc k'" "1 \<le> k'"
        by (cases k) auto
      have it: "(probe_next ^^ k') (probe_next idx) = last_idx"
        using less.prems(4) by (simp add: k' funpow_swap1)
      have m: "9 * nat (threshold dbs - i) + k' < 9 * nat (threshold dbs - i) + k"
        using k' by simp
      have "k' \<le> 8"
        using less.prems(3) k' by simp
      from less.hyps [OF m less.prems(1) k'(2) this it]
      obtain y where "rehash_loop dbs a b False new_v hr (probe_next idx) last_idx i = Some y"
        by blast
      with nz False show ?thesis
        by (subst rehash_loop_step) simp
    qed
  qed
qed


section \<open>Lookups on a directory that only grows\<close>

text \<open>
  A directory grows when every published slot keeps its content, the payload cells that
  published slots point to are unchanged, and the configuration is the same.  A lookup
  that ends without inserting, because it found its payload or exhausted its budget,
  gives the same answer on every grown directory.
\<close>

definition grows :: "llmsset \<Rightarrow> llmsset \<Rightarrow> bool" where
  "grows dbs dbs' \<longleftrightarrow>
     (\<forall>p. table dbs p \<noteq> 0 \<longrightarrow>
        table dbs' p = table dbs p \<and>
        data dbs' (2 * (table dbs p AND MASK_INDEX)) =
          data dbs (2 * (table dbs p AND MASK_INDEX)) \<and>
        data dbs' (2 * (table dbs p AND MASK_INDEX) + 1) =
          data dbs (2 * (table dbs p AND MASK_INDEX) + 1)) \<and>
     threshold dbs' = threshold dbs \<and> table_size dbs' = table_size dbs \<and>
     mask_field dbs' = mask_field dbs \<and> LLMSSET_MASK dbs' = LLMSSET_MASK dbs \<and>
     hash_cb dbs' = hash_cb dbs \<and> equals_cb dbs' = equals_cb dbs"

lemma grows_refl: "grows dbs dbs"
  by (simp add: grows_def)

lemma grows_slot: "grows dbs dbs' \<Longrightarrow> table dbs p \<noteq> 0 \<Longrightarrow> table dbs' p = table dbs p"
  by (simp add: grows_def)

lemma grows_trans:
  assumes "grows dbs dbs1" "grows dbs1 dbs2"
  shows "grows dbs dbs2"
proof -
  have "table dbs2 p = table dbs p \<and>
        data dbs2 (2 * (table dbs p AND MASK_INDEX)) =
          data dbs (2 * (table dbs p AND MASK_INDEX)) \<and>
        data dbs2 (2 * (table dbs p AND MASK_INDEX) + 1) =
          data dbs (2 * (table dbs p AND MASK_INDEX) + 1)" if "table dbs p \<noteq> 0" for p
  proof -
    from assms(1) that have a: "table dbs1 p = table dbs p"
      "data dbs1 (2 * (table dbs p AND MASK_INDEX)) = data dbs (2 * (table dbs p AND MASK_INDEX))"
      "data dbs1 (2 * (table dbs p AND MASK_INDEX) + 1) =
         data dbs (2 * (table dbs p AND MASK_INDEX) + 1)"
      by (simp_all add: grows_def)
    with that have "table dbs1 p \<noteq> 0"
      by simp
    with assms(2) have b: "table dbs2 p = table dbs1 p"
      "data dbs2 (2 * (table dbs1 p AND MASK_INDEX)) =
         data dbs1 (2 * (table dbs1 p AND MASK_INDEX))"
      "data dbs2 (2 * (table dbs1 p AND MASK_INDEX) + 1) =
         data dbs1 (2 * (table dbs1 p AND MASK_INDEX) + 1)"
      by (simp_all add: grows_def)
    from a b show ?thesis
      by simp
  qed
  moreover have "threshold dbs2 = threshold dbs \<and> table_size dbs2 = table_size dbs \<and>
     mask_field dbs2 = mask_field dbs \<and> LLMSSET_MASK dbs2 = LLMSSET_MASK dbs \<and>
     hash_cb dbs2 = hash_cb dbs \<and> equals_cb dbs2 = equals_cb dbs"
    using assms by (simp add: grows_def)
  ultimately show ?thesis
    by (simp add: grows_def)
qed

lemma hash_step_grows: "grows dbs dbs' \<Longrightarrow> hash_step dbs' custom a b hr = hash_step dbs custom a b hr"
  by (simp add: hash_step_def grows_def)

lemma probe_start_grows: "grows dbs dbs' \<Longrightarrow> probe_start dbs' h = probe_start dbs h"
  by (simp add: probe_start_def grows_def)

lemma lookup_match_grows:
  assumes "grows dbs dbs'" "table dbs p \<noteq> 0"
  shows "lookup_match dbs' a b custom hash (table dbs p) 0 =
         map_option (map_option (\<lambda>r. (fst r, dbs')))
           (lookup_match dbs a b custom hash (table dbs p) 0)"
proof -
  from assms have d: "data dbs' (2 * (table dbs p AND MASK_INDEX)) =
          data dbs (2 * (table dbs p AND MASK_INDEX))"
        "data dbs' (2 * (table dbs p AND MASK_INDEX) + 1) =
          data dbs (2 * (table dbs p AND MASK_INDEX) + 1)"
    and e: "equals_cb dbs' = equals_cb dbs"
    by (simp_all add: grows_def)
  show ?thesis
    by (simp add: lookup_match_seq d e split: option.splits)
qed

lemma lookup_match_found_state:
  "lookup_match dbs a b custom hash v 0 = Some (Some res) \<Longrightarrow>
   snd res = dbs \<and> (\<exists>d. fst res = Found d)"
  by (auto simp: lookup_match_seq split: if_splits option.splits)

lemma lookup_loop_stable:
  assumes "lookup_loop dbs w a b custom hash hr idx last_idx cidx i = Some y"
  shows "cidx = 0 \<longrightarrow> (fst y = ProbeExhausted \<or> (\<exists>d. fst y = Found d)) \<longrightarrow>
         (\<forall>dbs' w'. grows dbs dbs' \<longrightarrow>
            lookup_loop dbs' w' a b custom hash hr idx last_idx 0 i = Some (fst y, dbs'))"
proof (rule lookup_loop.raw_induct
    [where P = "\<lambda>dbs w a b custom hash hr idx last_idx cidx i y.
       cidx = 0 \<longrightarrow> (fst y = ProbeExhausted \<or> (\<exists>d. fst y = Found d)) \<longrightarrow>
         (\<forall>dbs' w'. grows dbs dbs' \<longrightarrow>
            lookup_loop dbs' w' a b custom hash hr idx last_idx 0 i = Some (fst y, dbs'))",
      OF _ assms], goal_cases)
  case (1 f dbs w a b custom hash hr idx last_idx cidx i y)
  show ?case
  proof (intro impI allI)
    fix dbs' w'
    assume c0: "cidx = 0"
      and oc: "fst y = ProbeExhausted \<or> (\<exists>d. fst y = Found d)"
      and g: "grows dbs dbs'"
    have nz: "table dbs idx \<noteq> 0"
    proof
      assume "table dbs idx = 0"
      with 1(2) c0 oc show False
        by (auto simp: lookup_empty_seq split: option.splits if_splits)
    qed
    then have nz': "table dbs' idx \<noteq> 0" and same: "table dbs' idx = table dbs idx"
      using grows_slot [OF g] by simp_all
    note mg = lookup_match_grows [OF g nz, of a b custom hash]
    show "lookup_loop dbs' w' a b custom hash hr idx last_idx 0 i = Some (fst y, dbs')"
    proof (cases "lookup_match dbs a b custom hash (table dbs idx) 0")
      case None
      with 1(2) c0 nz show ?thesis
        by simp
    next
      case (Some m)
      show ?thesis
      proof (cases m)
        case (Some res)
        with \<open>lookup_match dbs a b custom hash (table dbs idx) 0 = Some m\<close>
        have m: "lookup_match dbs a b custom hash (table dbs idx) 0 = Some (Some res)"
          by simp
        with 1(2) c0 nz have "y = res"
          by simp
        with m mg nz' same show ?thesis
          by (subst lookup_loop_seq) simp
      next
        case None
        with \<open>lookup_match dbs a b custom hash (table dbs idx) 0 = Some m\<close>
        have m: "lookup_match dbs a b custom hash (table dbs idx) 0 = Some None"
          by simp
        then have m': "lookup_match dbs' a b custom hash (table dbs' idx) 0 = Some None"
          using mg same by simp
        have th: "threshold dbs' = threshold dbs"
          using g by (simp add: grows_def)
        show ?thesis
        proof (cases "probe_next idx = last_idx")
          case False
          with 1(2) c0 nz m have
            "f dbs w a b custom hash hr (probe_next idx) last_idx 0 i = Some y"
            by simp
          from 1(1) [OF this] oc g have
            "lookup_loop dbs' w' a b custom hash hr (probe_next idx) last_idx 0 i =
               Some (fst y, dbs')"
            by simp
          with nz' m' False show ?thesis
            by (subst lookup_loop_seq) simp
        next
          case True
          show ?thesis
          proof (cases "i + 1 = threshold dbs")
            case True
            with 1(2) c0 nz m \<open>probe_next idx = last_idx\<close> have "y = (ProbeExhausted, dbs)"
              by simp
            with nz' m' True \<open>probe_next idx = last_idx\<close> th show ?thesis
              by (subst lookup_loop_seq) simp
          next
            case False
            with 1(2) c0 nz m \<open>probe_next idx = last_idx\<close>
            obtain hr' st where hs: "hash_step dbs custom a b hr = Some hr'"
              and ps: "probe_start dbs hr' = Some st"
              and rec: "f dbs w a b custom hash hr' st st 0 (i + 1) = Some y"
              by (auto split: option.splits)
            from 1(1) [OF rec] oc g have
              "lookup_loop dbs' w' a b custom hash hr' st st 0 (i + 1) = Some (fst y, dbs')"
              by simp
            with nz' m' False \<open>probe_next idx = last_idx\<close> th hs ps show ?thesis
              by (subst lookup_loop_seq)
                 (simp add: hash_step_grows [OF g] probe_start_grows [OF g])
          qed
        qed
      qed
    qed
  qed
qed


section \<open>A re-inserted payload is found again\<close>

text \<open>
  \<open>no_match\<close>: no published slot holds the payload under the given tag.
  \<open>rehash_shape\<close>: what a re-insertion does to the state, nothing or one write of the
  new entry into an empty slot.  \<open>rehash_found\<close>: the entry to insert carries the tag
  and points to the payload, and the payload is not yet in the directory.
\<close>

definition no_match :: "llmsset \<Rightarrow> u64 \<Rightarrow> u64 \<Rightarrow> u64 \<Rightarrow> bool" where
  "no_match dbs a b hash \<longleftrightarrow>
     (\<forall>p. table dbs p \<noteq> 0 \<longrightarrow>
        lookup_match dbs a b False hash (table dbs p) 0 = Some None)"

definition rehash_shape :: "llmsset \<Rightarrow> u64 \<Rightarrow> llmsset \<Rightarrow> bool" where
  "rehash_shape dbs new_v dbs' \<longleftrightarrow>
     dbs' = dbs \<or> (\<exists>p. table dbs p = 0 \<and> dbs' = dbs\<lparr>table := (table dbs)(p := new_v)\<rparr>)"

lemma rehash_shape_grows: "rehash_shape dbs new_v dbs' \<Longrightarrow> grows dbs dbs'"
  by (auto simp: rehash_shape_def grows_def)

definition rehash_found ::
  "llmsset \<Rightarrow> u64 \<Rightarrow> u64 \<Rightarrow> u64 \<Rightarrow> u64 \<Rightarrow> bool" where
  "rehash_found dbs a b new_v hash \<longleftrightarrow>
     no_match dbs a b hash \<and> new_v \<noteq> 0 \<and> new_v AND MASK_HASH = hash \<and>
     data dbs (2 * (new_v AND MASK_INDEX)) = a \<and>
     data dbs (2 * (new_v AND MASK_INDEX) + 1) = b"

lemma rehash_loop_post:
  assumes "rehash_loop dbs a b custom new_v hr idx last_idx i = Some y"
  shows "rehash_shape dbs new_v (snd y) \<and>
         (\<not> custom \<longrightarrow> rehash_found dbs a b new_v hash \<longrightarrow>
          (\<forall>w. lookup_loop (snd y) w a b False hash hr idx last_idx 0 i =
             Some (if fst y then Found (new_v AND MASK_INDEX) else ProbeExhausted, snd y)))"
proof (rule rehash_loop.raw_induct
    [where P = "\<lambda>dbs a b custom new_v hr idx last_idx i y.
       rehash_shape dbs new_v (snd y) \<and>
         (\<not> custom \<longrightarrow> rehash_found dbs a b new_v hash \<longrightarrow>
          (\<forall>w. lookup_loop (snd y) w a b False hash hr idx last_idx 0 i =
             Some (if fst y then Found (new_v AND MASK_INDEX) else ProbeExhausted, snd y)))",
      OF _ assms], goal_cases)
  case (1 f dbs a b custom new_v hr idx last_idx i y)
  show ?case
  proof (cases "table dbs idx = 0")
    case True
    with 1(2) have y: "y = (True, dbs\<lparr>table := (table dbs)(idx := new_v)\<rparr>)"
      by (simp add: cas_def Let_def)
    have "rehash_shape dbs new_v (snd y)"
      using True y by (auto simp: rehash_shape_def)
    moreover have "lookup_loop (snd y) w a b False hash hr idx last_idx 0 i =
        Some (Found (new_v AND MASK_INDEX), snd y)"
      if "rehash_found dbs a b new_v hash" for w
      using that unfolding y
      by (subst lookup_loop_seq) (simp add: rehash_found_def lookup_match_seq)
    ultimately show ?thesis
      using y by simp
  next
    case False
    note nz = this
    have body: "(if probe_next idx = last_idx then
        (if i + 1 = threshold dbs then Some (False, dbs)
         else (case hash_step dbs custom a b hr of
                 None \<Rightarrow> None
               | Some hr' \<Rightarrow>
                   (case probe_start dbs hr' of
                      None \<Rightarrow> None
                    | Some st \<Rightarrow> f dbs a b custom new_v hr' st st (i + 1))))
      else f dbs a b custom new_v hr (probe_next idx) last_idx i) = Some y"
      using 1(2) nz by (simp add: Let_def cong: option.case_cong if_cong)
    have step: "lookup_loop dbs' w a b False hash hr idx last_idx 0 i =
        (if probe_next idx = last_idx then
           (if i + 1 = threshold dbs then Some (ProbeExhausted, dbs')
            else (case hash_step dbs False a b hr of
                    None \<Rightarrow> None
                  | Some hr' \<Rightarrow>
                      (case probe_start dbs hr' of
                         None \<Rightarrow> None
                       | Some st \<Rightarrow> lookup_loop dbs' w a b False hash hr' st st 0 (i + 1))))
         else lookup_loop dbs' w a b False hash hr (probe_next idx) last_idx 0 i)"
      if g: "grows dbs dbs'" and rf: "rehash_found dbs a b new_v hash" for dbs' w
    proof -
      from rf nz have m: "lookup_match dbs a b False hash (table dbs idx) 0 = Some None"
        by (simp add: rehash_found_def no_match_def)
      have same: "table dbs' idx = table dbs idx"
        using grows_slot [OF g nz] .
      have m': "lookup_match dbs' a b False hash (table dbs' idx) 0 = Some None"
        using lookup_match_grows [OF g nz, of a b False hash] m same by simp
      have th: "threshold dbs' = threshold dbs"
        using g by (simp add: grows_def)
      show ?thesis
        using nz same m' th
        by (subst lookup_loop_seq)
           (simp add: hash_step_grows [OF g] probe_start_grows [OF g]
              cong: option.case_cong)
    qed
    show ?thesis
    proof (cases "probe_next idx = last_idx")
      case False
      with body have rec: "f dbs a b custom new_v hr (probe_next idx) last_idx i = Some y"
        by simp
      note ih = 1(1) [OF rec]
      from ih have sh: "rehash_shape dbs new_v (snd y)"
        by simp
      moreover have "lookup_loop (snd y) w a b False hash hr idx last_idx 0 i =
          Some (if fst y then Found (new_v AND MASK_INDEX) else ProbeExhausted, snd y)"
        if "\<not> custom" "rehash_found dbs a b new_v hash" for w
        using ih that False step [OF rehash_shape_grows [OF sh] that(2), of w]
        by simp
      ultimately show ?thesis
        by blast
    next
      case True
      show ?thesis
      proof (cases "i + 1 = threshold dbs")
        case True
        with body \<open>probe_next idx = last_idx\<close> have y: "y = (False, dbs)"
          by simp
        have "rehash_shape dbs new_v (snd y)"
          using y by (simp add: rehash_shape_def)
        moreover have "lookup_loop (snd y) w a b False hash hr idx last_idx 0 i =
            Some (if fst y then Found (new_v AND MASK_INDEX) else ProbeExhausted, snd y)"
          if "rehash_found dbs a b new_v hash" for w
          using step [OF grows_refl that, of w] True \<open>probe_next idx = last_idx\<close> y
          by simp
        ultimately show ?thesis
          by blast
      next
        case False
        with body \<open>probe_next idx = last_idx\<close>
        obtain hr' st where hs: "hash_step dbs custom a b hr = Some hr'"
          and ps: "probe_start dbs hr' = Some st"
          and rec: "f dbs a b custom new_v hr' st st (i + 1) = Some y"
          by (auto split: option.splits)
        note ih = 1(1) [OF rec]
        from ih have sh: "rehash_shape dbs new_v (snd y)"
          by simp
        moreover have "lookup_loop (snd y) w a b False hash hr idx last_idx 0 i =
            Some (if fst y then Found (new_v AND MASK_INDEX) else ProbeExhausted, snd y)"
          if "\<not> custom" "rehash_found dbs a b new_v hash" for w
          using ih that False \<open>probe_next idx = last_idx\<close> hs ps
            step [OF rehash_shape_grows [OF sh] that(2), of w]
          by simp
        ultimately show ?thesis
          by blast
      qed
    qed
  qed
qed


text \<open>
  What the loop returns and writes: it returns 1 after one write of the new entry into an
  empty slot, and 0 with the state untouched.  A failed re-insertion fails again on every
  grown directory.
\<close>

lemma rehash_loop_outcome:
  assumes "rehash_loop dbs a b custom new_v hr idx last_idx i = Some y"
  shows "if fst y
         then \<exists>p. table dbs p = 0 \<and> snd y = dbs\<lparr>table := (table dbs)(p := new_v)\<rparr>
         else snd y = dbs"
proof (rule rehash_loop.raw_induct
    [where P = "\<lambda>dbs a b custom new_v hr idx last_idx i y.
       if fst y
       then \<exists>p. table dbs p = 0 \<and> snd y = dbs\<lparr>table := (table dbs)(p := new_v)\<rparr>
       else snd y = dbs",
      OF _ assms], goal_cases)
  case (1 f dbs a b custom new_v hr idx last_idx i y)
  show ?case
  proof (cases "table dbs idx = 0")
    case True
    with 1(2) have y: "y = (True, dbs\<lparr>table := (table dbs)(idx := new_v)\<rparr>)"
      by (simp add: cas_def Let_def)
    with True show ?thesis
      by auto
  next
    case False
    note nz = this
    have body: "(if probe_next idx = last_idx then
        (if i + 1 = threshold dbs then Some (False, dbs)
         else (case hash_step dbs custom a b hr of
                 None \<Rightarrow> None
               | Some hr' \<Rightarrow>
                   (case probe_start dbs hr' of
                      None \<Rightarrow> None
                    | Some st \<Rightarrow> f dbs a b custom new_v hr' st st (i + 1))))
      else f dbs a b custom new_v hr (probe_next idx) last_idx i) = Some y"
      using 1(2) nz by (simp add: Let_def cong: option.case_cong if_cong)
    show ?thesis
    proof (cases "probe_next idx = last_idx")
      case False
      with body have "f dbs a b custom new_v hr (probe_next idx) last_idx i = Some y"
        by simp
      then show ?thesis
        by (rule 1(1))
    next
      case True
      show ?thesis
      proof (cases "i + 1 = threshold dbs")
        case True
        with body \<open>probe_next idx = last_idx\<close> have "y = (False, dbs)"
          by simp
        then show ?thesis
          by simp
      next
        case False
        with body \<open>probe_next idx = last_idx\<close>
        obtain hr' st where "f dbs a b custom new_v hr' st st (i + 1) = Some y"
          by (auto split: option.splits)
        then show ?thesis
          by (rule 1(1))
      qed
    qed
  qed
qed

lemma rehash_loop_fail_stable:
  assumes "rehash_loop dbs a b custom new_v hr idx last_idx i = Some y"
  shows "\<not> fst y \<longrightarrow>
         (\<forall>dbs'. grows dbs dbs' \<longrightarrow>
            rehash_loop dbs' a b custom new_v hr idx last_idx i = Some (False, dbs'))"
proof (rule rehash_loop.raw_induct
    [where P = "\<lambda>dbs a b custom new_v hr idx last_idx i y.
       \<not> fst y \<longrightarrow>
         (\<forall>dbs'. grows dbs dbs' \<longrightarrow>
            rehash_loop dbs' a b custom new_v hr idx last_idx i = Some (False, dbs'))",
      OF _ assms], goal_cases)
  case (1 f dbs a b custom new_v hr idx last_idx i y)
  show ?case
  proof (intro impI allI)
    fix dbs'
    assume fl: "\<not> fst y" and g: "grows dbs dbs'"
    have nz: "table dbs idx \<noteq> 0"
    proof
      assume "table dbs idx = 0"
      with 1(2) have "y = (True, dbs\<lparr>table := (table dbs)(idx := new_v)\<rparr>)"
        by (simp add: cas_def Let_def)
      with fl show False
        by simp
    qed
    then have nz': "table dbs' idx \<noteq> 0"
      using grows_slot [OF g] by simp
    have th: "threshold dbs' = threshold dbs"
      using g by (simp add: grows_def)
    have body: "(if probe_next idx = last_idx then
        (if i + 1 = threshold dbs then Some (False, dbs)
         else (case hash_step dbs custom a b hr of
                 None \<Rightarrow> None
               | Some hr' \<Rightarrow>
                   (case probe_start dbs hr' of
                      None \<Rightarrow> None
                    | Some st \<Rightarrow> f dbs a b custom new_v hr' st st (i + 1))))
      else f dbs a b custom new_v hr (probe_next idx) last_idx i) = Some y"
      using 1(2) nz by (simp add: Let_def cong: option.case_cong if_cong)
    show "rehash_loop dbs' a b custom new_v hr idx last_idx i = Some (False, dbs')"
    proof (cases "probe_next idx = last_idx")
      case False
      with body have "f dbs a b custom new_v hr (probe_next idx) last_idx i = Some y"
        by simp
      from 1(1) [OF this] fl g have
        "rehash_loop dbs' a b custom new_v hr (probe_next idx) last_idx i = Some (False, dbs')"
        by simp
      with nz' False show ?thesis
        by (subst rehash_loop_step) simp
    next
      case True
      show ?thesis
      proof (cases "i + 1 = threshold dbs")
        case True
        with nz' \<open>probe_next idx = last_idx\<close> th show ?thesis
          by (subst rehash_loop_step) simp
      next
        case False
        with body \<open>probe_next idx = last_idx\<close>
        obtain hr' st where hs: "hash_step dbs custom a b hr = Some hr'"
          and ps: "probe_start dbs hr' = Some st"
          and rec: "f dbs a b custom new_v hr' st st (i + 1) = Some y"
          by (auto split: option.splits)
        from 1(1) [OF rec] fl g have
          "rehash_loop dbs' a b custom new_v hr' st st (i + 1) = Some (False, dbs')"
          by simp
        with nz' False \<open>probe_next idx = last_idx\<close> th hs ps show ?thesis
          by (subst rehash_loop_step)
             (simp add: hash_step_grows [OF g] probe_start_grows [OF g])
      qed
    qed
  qed
qed

lemma rehash_bucket_fail_stable:
  assumes r: "llmsset_rehash_bucket dbs i = Some (False, dbs)" and g: "grows dbs dbs'"
    and d: "data dbs' = data dbs" and b: "bitmap2 dbs' = bitmap2 dbs"
  shows "llmsset_rehash_bucket dbs' i = Some (False, dbs')"
proof -
  define a where "a = data dbs (2 * i)"
  define c where "c = data dbs (2 * i + 1)"
  define custom where "custom \<longleftrightarrow> hash_cb dbs \<noteq> None \<and> get_custom_bucket dbs i"
  have cu: "(hash_cb dbs' \<noteq> None \<and> get_custom_bucket dbs' i) = custom"
    using g b by (simp add: custom_def grows_def get_custom_bucket_def)
  from r obtain h st where hs: "hash_step dbs custom a c FNV_SEED = Some h"
    and ps: "probe_start dbs h = Some st"
    and rl: "rehash_loop dbs a c custom ((h AND MASK_HASH) OR i) h st st 0 = Some (False, dbs)"
    by (auto simp: llmsset_rehash_bucket_def Let_def a_def c_def custom_def
        split: option.splits)
  from rehash_loop_fail_stable [OF rl] g have
    "rehash_loop dbs' a c custom ((h AND MASK_HASH) OR i) h st st 0 = Some (False, dbs')"
    by simp
  then show ?thesis
    unfolding llmsset_rehash_bucket_def Let_def d cu a_def [symmetric] c_def [symmetric]
      hash_step_grows [OF g] probe_start_grows [OF g]
    using hs ps by simp
qed


section \<open>The rehash sweep\<close>

text \<open>
  The sweep is described relative to the state \<open>s0\<close> it starts from.  \<open>payload_tag\<close> is
  the entry that the sweep writes for an index.  \<open>env_eq\<close>: payloads, marks and
  configuration are those of \<open>s0\<close>.  \<open>dir_ok\<close>: every published slot holds the entry of
  a marked index of the set \<open>D\<close>.  \<open>target\<close>: a marked index other than 0 whose payload
  no other marked index holds.  \<open>settled\<close>: when a slot of the directory holds the entry of the
  index, every lookup of its payload returns the index; when no slot holds it, the
  re-insertion of the index returns 0 and every lookup of its payload exhausts the probe
  budget; either way the state is left as it is.
  \<open>rehash_swept\<close> relates the states before and after the sweep of a set of indices.
\<close>

definition payload_tag :: "llmsset \<Rightarrow> u64 \<Rightarrow> u64" where
  "payload_tag s0 j =
     (rehash16_mul (data s0 (2 * j)) (data s0 (2 * j + 1)) FNV_SEED AND MASK_HASH) OR j"

definition env_eq :: "llmsset \<Rightarrow> llmsset \<Rightarrow> bool" where
  "env_eq s0 dbs \<longleftrightarrow> data dbs = data s0 \<and> bitmap2 dbs = bitmap2 s0 \<and> same_config s0 dbs"

definition dir_ok :: "llmsset \<Rightarrow> u64 set \<Rightarrow> llmsset \<Rightarrow> bool" where
  "dir_ok s0 D dbs \<longleftrightarrow>
     (\<forall>p. table dbs p \<noteq> 0 \<longrightarrow>
        (\<exists>j\<in>D. marked_at (bitmap2 s0) j \<and> j AND MASK_HASH = 0 \<and>
           table dbs p = payload_tag s0 j))"

definition target :: "llmsset \<Rightarrow> u64 \<Rightarrow> bool" where
  "target s0 i \<longleftrightarrow>
     marked_at (bitmap2 s0) i \<and> i \<noteq> 0 \<and> i AND MASK_HASH = 0 \<and>
     (\<forall>j. marked_at (bitmap2 s0) j \<and> j \<noteq> i \<longrightarrow>
        \<not> (data s0 (2 * j) = data s0 (2 * i) \<and> data s0 (2 * j + 1) = data s0 (2 * i + 1)))"

definition settled :: "llmsset \<Rightarrow> llmsset \<Rightarrow> u64 \<Rightarrow> bool" where
  "settled s0 dbs i \<longleftrightarrow>
     (if \<exists>p. table dbs p = payload_tag s0 i
      then \<forall>w. llmsset_lookup2 dbs w (data s0 (2 * i)) (data s0 (2 * i + 1)) False =
             Some (Found i, dbs)
      else llmsset_rehash_bucket dbs i = Some (False, dbs) \<and>
           (\<forall>w. llmsset_lookup2 dbs w (data s0 (2 * i)) (data s0 (2 * i + 1)) False =
              Some (ProbeExhausted, dbs)))"

definition rehash_swept :: "llmsset \<Rightarrow> u64 set \<Rightarrow> llmsset \<Rightarrow> llmsset \<Rightarrow> bool" where
  "rehash_swept s0 R dbs dbs' \<longleftrightarrow>
     env_eq s0 dbs' \<and> grows dbs dbs' \<and>
     (\<forall>D. dir_ok s0 D dbs \<and> D \<inter> R = {} \<longrightarrow>
        dir_ok s0 (D \<union> R) dbs' \<and> (\<forall>i\<in>R. target s0 i \<longrightarrow> settled s0 dbs' i))"

lemma dir_ok_mono: "dir_ok s0 D dbs \<Longrightarrow> D \<subseteq> D' \<Longrightarrow> dir_ok s0 D' dbs"
  unfolding dir_ok_def by blast

lemma swept_empty: "env_eq s0 dbs \<Longrightarrow> rehash_swept s0 {} dbs dbs"
  by (simp add: rehash_swept_def grows_refl)

lemma swept_skip: "env_eq s0 dbs \<Longrightarrow> \<not> marked_at (bitmap2 s0) k \<Longrightarrow> rehash_swept s0 {k} dbs dbs"
  by (auto simp: rehash_swept_def grows_refl target_def intro: dir_ok_mono)

lemma llmsset_lookup2_stable:
  assumes l: "llmsset_lookup2 dbs w a b False = Some (oc, dbs)"
    and oc: "oc = ProbeExhausted \<or> (\<exists>d. oc = Found d)"
    and g: "grows dbs dbs'"
  shows "llmsset_lookup2 dbs' w' a b False = Some (oc, dbs')"
proof -
  from l obtain h st where hs: "hash_step dbs False a b FNV_SEED = Some h"
    and ps: "probe_start dbs h = Some st"
    and ll: "lookup_loop dbs w a b False (h AND MASK_HASH) h st st 0 0 = Some (oc, dbs)"
    by (auto simp: llmsset_lookup2_def split: option.splits)
  from lookup_loop_stable [OF ll] oc g
  have "lookup_loop dbs' w' a b False (h AND MASK_HASH) h st st 0 0 = Some (oc, dbs')"
    by simp
  with hs ps show ?thesis
    by (simp add: llmsset_lookup2_def hash_step_grows [OF g] probe_start_grows [OF g])
qed

text \<open>
  The configuration under which the sweep is studied: no custom hash, a positive probe
  budget, and a divisor other than zero where the remainder is taken.
\<close>

definition sweep_cfg :: "llmsset \<Rightarrow> bool" where
  "sweep_cfg s0 \<longleftrightarrow>
     hash_cb s0 = None \<and> 0 < threshold s0 \<and> (LLMSSET_MASK s0 \<or> table_size s0 \<noteq> 0)"

lemma small_index:
  fixes j :: u64
  assumes "unat j < 2 ^ 44"
  shows "j AND MASK_HASH = 0"
proof -
  have "j < 2 ^ 44"
    using assms by (simp add: word_less_nat_alt)
  then have "j AND mask 44 = j"
    by (rule less_mask_eq)
  then have "j AND MASK_HASH = (j AND mask 44) AND NOT (mask 44)"
    by (simp add: MASK_HASH_mask)
  also have "\<dots> = 0"
    by (simp add: and.assoc)
  finally show ?thesis .
qed

lemma tag_parts:
  fixes j h :: u64
  assumes "j AND MASK_HASH = 0"
  shows "((h AND MASK_HASH) OR j) AND MASK_INDEX = j"
    and "((h AND MASK_HASH) OR j) AND MASK_HASH = h AND MASK_HASH"
proof -
  have jb: "n < 44" if "bit j n" for n
  proof (rule ccontr)
    assume "\<not> n < 44"
    with that bit_imp_le_length [OF that] have "bit (j AND NOT (mask 44)) n"
      by (simp add: bit_simps)
    with assms show False
      by (simp add: MASK_HASH_mask)
  qed
  show "((h AND MASK_HASH) OR j) AND MASK_INDEX = j"
    unfolding MASK_HASH_mask MASK_INDEX_mask
    by (rule bit_word_eqI) (auto simp: bit_simps dest: jb)
  show "((h AND MASK_HASH) OR j) AND MASK_HASH = h AND MASK_HASH"
    unfolding MASK_HASH_mask
    by (rule bit_word_eqI) (auto simp: bit_simps dest: jb)
qed

lemma env_eq_shape: "env_eq s0 dbs \<Longrightarrow> rehash_shape dbs v dbs' \<Longrightarrow> env_eq s0 dbs'"
  by (auto simp: env_eq_def rehash_shape_def same_config_def)

lemma payload_tag_index: "j AND MASK_HASH = 0 \<Longrightarrow> payload_tag s0 j AND MASK_INDEX = j"
  by (simp add: payload_tag_def tag_parts(1))

lemma payload_tag_nonzero:
  assumes "j \<noteq> 0" "j AND MASK_HASH = 0"
  shows "payload_tag s0 j \<noteq> 0"
proof
  assume "payload_tag s0 j = 0"
  then have "payload_tag s0 j AND MASK_INDEX = 0"
    by simp
  with payload_tag_index [OF assms(2), of s0] assms(1) show False
    by simp
qed

lemma dir_ok_absent:
  assumes ok: "dir_ok s0 D dbs" and ni: "i \<notin> D" and i0: "i \<noteq> 0"
    and small: "i AND MASK_HASH = 0"
  shows "table dbs p \<noteq> payload_tag s0 i"
proof
  assume eq: "table dbs p = payload_tag s0 i"
  then have "table dbs p \<noteq> 0"
    using payload_tag_nonzero [OF i0 small, of s0] by simp
  with ok obtain j where j: "j \<in> D" "j AND MASK_HASH = 0" "table dbs p = payload_tag s0 j"
    unfolding dir_ok_def by blast
  from j(3) eq have "payload_tag s0 j AND MASK_INDEX = payload_tag s0 i AND MASK_INDEX"
    by simp
  then have "j = i"
    by (simp add: payload_tag_index [OF j(2)] payload_tag_index [OF small])
  with j(1) ni show False
    by simp
qed

lemma dir_ok_remove:
  assumes ok: "dir_ok s0 D dbs" and ab: "\<forall>p. table dbs p \<noteq> payload_tag s0 i"
  shows "dir_ok s0 (D - {i}) dbs"
  unfolding dir_ok_def
proof (intro allI impI)
  fix p
  assume "table dbs p \<noteq> 0"
  with ok obtain j where j: "j \<in> D" "marked_at (bitmap2 s0) j" "j AND MASK_HASH = 0"
    "table dbs p = payload_tag s0 j"
    unfolding dir_ok_def by blast
  from j(4) ab have "j \<noteq> i"
    by auto
  with j show "\<exists>j\<in>D - {i}. marked_at (bitmap2 s0) j \<and> j AND MASK_HASH = 0 \<and>
                  table dbs p = payload_tag s0 j"
    by blast
qed

lemma settled_swept:
  assumes s: "settled s0 dbs1 i" and sw: "rehash_swept s0 R dbs1 dbs2"
    and e1: "env_eq s0 dbs1" and ok: "dir_ok s0 D dbs1" and dis: "(D - {i}) \<inter> R = {}"
    and ni: "i \<notin> R" and i0: "i \<noteq> 0" and small: "i AND MASK_HASH = 0"
  shows "settled s0 dbs2 i"
proof (cases "\<exists>p. table dbs1 p = payload_tag s0 i")
  case True
  have g: "grows dbs1 dbs2"
    using sw by (simp add: rehash_swept_def)
  from True obtain p where p: "table dbs1 p = payload_tag s0 i"
    by blast
  then have "table dbs1 p \<noteq> 0"
    using payload_tag_nonzero [OF i0 small, of s0] by simp
  from grows_slot [OF g this] p have pub: "\<exists>p. table dbs2 p = payload_tag s0 i"
    by auto
  from s True have "llmsset_lookup2 dbs1 w (data s0 (2 * i)) (data s0 (2 * i + 1)) False =
      Some (Found i, dbs1)" for w
    by (simp add: settled_def)
  from llmsset_lookup2_stable [OF this _ g]
  have "llmsset_lookup2 dbs2 w (data s0 (2 * i)) (data s0 (2 * i + 1)) False =
      Some (Found i, dbs2)" for w
    by blast
  with pub show ?thesis
    by (simp add: settled_def)
next
  case False
  have g: "grows dbs1 dbs2" and e2: "env_eq s0 dbs2"
    using sw by (simp_all add: rehash_swept_def)
  from False have "\<forall>p. table dbs1 p \<noteq> payload_tag s0 i"
    by simp
  from dir_ok_remove [OF ok this] sw dis have "dir_ok s0 ((D - {i}) \<union> R) dbs2"
    unfolding rehash_swept_def by blast
  moreover have "i \<notin> (D - {i}) \<union> R"
    using ni by simp
  ultimately have ab: "table dbs2 p \<noteq> payload_tag s0 i" for p
    using dir_ok_absent [OF _ _ i0 small] by blast
  from s False have rb: "llmsset_rehash_bucket dbs1 i = Some (False, dbs1)"
    and lk: "llmsset_lookup2 dbs1 w (data s0 (2 * i)) (data s0 (2 * i + 1)) False =
      Some (ProbeExhausted, dbs1)" for w
    by (simp_all add: settled_def)
  have "data dbs2 = data dbs1" "bitmap2 dbs2 = bitmap2 dbs1"
    using e1 e2 by (simp_all add: env_eq_def)
  from rehash_bucket_fail_stable [OF rb g this]
  have rb2: "llmsset_rehash_bucket dbs2 i = Some (False, dbs2)" .
  from llmsset_lookup2_stable [OF lk _ g]
  have "llmsset_lookup2 dbs2 w (data s0 (2 * i)) (data s0 (2 * i + 1)) False =
      Some (ProbeExhausted, dbs2)" for w
    by blast
  with rb2 ab show ?thesis
    by (simp add: settled_def)
qed

lemma swept_union:
  assumes a: "rehash_swept s0 R1 dbs dbs1" and b: "rehash_swept s0 R2 dbs1 dbs2"
    and d: "R1 \<inter> R2 = {}"
  shows "rehash_swept s0 (R1 \<union> R2) dbs dbs2"
proof -
  have g1: "grows dbs dbs1" and g2: "grows dbs1 dbs2" and e2: "env_eq s0 dbs2"
    and e1: "env_eq s0 dbs1"
    using a b by (simp_all add: rehash_swept_def)
  have "dir_ok s0 (D \<union> (R1 \<union> R2)) dbs2 \<and>
        (\<forall>i\<in>R1 \<union> R2. target s0 i \<longrightarrow> settled s0 dbs2 i)"
    if ok: "dir_ok s0 D dbs" and dis: "D \<inter> (R1 \<union> R2) = {}" for D
  proof -
    from dis have "D \<inter> R1 = {}"
      by blast
    with a ok have ok1: "dir_ok s0 (D \<union> R1) dbs1"
      and s1: "\<forall>i\<in>R1. target s0 i \<longrightarrow> settled s0 dbs1 i"
      by (simp_all add: rehash_swept_def)
    from dis d have d2: "(D \<union> R1) \<inter> R2 = {}"
      by blast
    with b ok1 have ok2: "dir_ok s0 (D \<union> R1 \<union> R2) dbs2"
      and s2: "\<forall>i\<in>R2. target s0 i \<longrightarrow> settled s0 dbs2 i"
      by (simp_all add: rehash_swept_def)
    have "settled s0 dbs2 i" if i: "i \<in> R1" and t: "target s0 i" for i
    proof -
      from s1 i t have "settled s0 dbs1 i"
        by blast
      moreover have "(D \<union> R1 - {i}) \<inter> R2 = {}"
        using d2 by blast
      moreover have "i \<notin> R2"
        using i d by blast
      moreover have "i \<noteq> 0" "i AND MASK_HASH = 0"
        using t by (simp_all add: target_def)
      ultimately show ?thesis
        using settled_swept [OF _ b e1 ok1] by blast
    qed
    with s2 ok2 show ?thesis
      by (auto simp: Un_assoc)
  qed
  then have "\<forall>D. dir_ok s0 D dbs \<and> D \<inter> (R1 \<union> R2) = {} \<longrightarrow>
        dir_ok s0 (D \<union> (R1 \<union> R2)) dbs2 \<and>
        (\<forall>i\<in>R1 \<union> R2. target s0 i \<longrightarrow> settled s0 dbs2 i)"
    by blast
  with e2 grows_trans [OF g1 g2] show ?thesis
    unfolding rehash_swept_def by blast
qed

lemma swept_marked:
  assumes e: "env_eq s0 dbs" and cfg: "sweep_cfg s0"
    and small: "k AND MASK_HASH = 0" and m: "marked_at (bitmap2 s0) k"
  shows "\<exists>y. llmsset_rehash_bucket dbs k = Some y \<and> rehash_swept s0 {k} dbs (snd y)"
proof -
  define a where "a = data dbs (2 * k)"
  define b where "b = data dbs (2 * k + 1)"
  define h where "h = rehash16_mul a b FNV_SEED"
  define new_v where "new_v = (h AND MASK_HASH) OR k"
  have a0: "a = data s0 (2 * k)" and b0: "b = data s0 (2 * k + 1)"
    using e by (simp_all add: a_def b_def env_eq_def)
  have nv: "new_v = payload_tag s0 k"
    by (simp add: new_v_def payload_tag_def h_def a0 b0)
  have nocb: "hash_cb dbs = None" and thr: "0 < threshold dbs"
    and sz: "LLMSSET_MASK dbs \<or> table_size dbs \<noteq> 0"
    using e cfg by (simp_all add: env_eq_def same_config_def sweep_cfg_def)
  from probe_start_some [OF sz] obtain st where st: "probe_start dbs h = Some st"
    by blast
  have "\<exists>y. rehash_loop dbs a b False new_v h st st 0 = Some y"
    by (rule rehash_loop_total [OF sz thr, of 8]) (simp_all add: probe_next_cycle)
  then obtain y where rl: "rehash_loop dbs a b False new_v h st st 0 = Some y"
    by blast
  have rb: "llmsset_rehash_bucket dbs k = Some y"
    using rl st nocb
    by (simp add: llmsset_rehash_bucket_def hash_step_def Let_def a_def b_def h_def new_v_def)
  note post = rehash_loop_post [OF rl, of "h AND MASK_HASH"]
  from post have shape: "rehash_shape dbs new_v (snd y)"
    by simp
  have g: "grows dbs (snd y)"
    by (rule rehash_shape_grows [OF shape])
  have e': "env_eq s0 (snd y)"
    by (rule env_eq_shape [OF e shape])
  have main: "dir_ok s0 (D \<union> {k}) (snd y) \<and> (\<forall>i\<in>{k}. target s0 i \<longrightarrow> settled s0 (snd y) i)"
    if ok: "dir_ok s0 D dbs" and dis: "D \<inter> {k} = {}" for D
  proof
    show "dir_ok s0 (D \<union> {k}) (snd y)"
      unfolding dir_ok_def
    proof (intro allI impI)
      fix p
      assume nz: "table (snd y) p \<noteq> 0"
      from shape consider "snd y = dbs"
        | q where "table dbs q = 0" "snd y = dbs\<lparr>table := (table dbs)(q := new_v)\<rparr>"
        unfolding rehash_shape_def by blast
      then show "\<exists>j\<in>D \<union> {k}. marked_at (bitmap2 s0) j \<and> j AND MASK_HASH = 0 \<and>
                   table (snd y) p = payload_tag s0 j"
      proof cases
        case 1
        with nz ok show ?thesis
          unfolding dir_ok_def by auto
      next
        case 2
        show ?thesis
        proof (cases "p = q")
          case True
          with 2 have "table (snd y) p = payload_tag s0 k"
            by (simp add: nv)
          then show ?thesis
            using small m by blast
        next
          case False
          with 2 nz have "table dbs p \<noteq> 0" "table (snd y) p = table dbs p"
            by simp_all
          with ok show ?thesis
            unfolding dir_ok_def by auto
        qed
      qed
    qed
  next
    have "settled s0 (snd y) k" if t: "target s0 k"
    proof -
      have nm: "no_match dbs a b (h AND MASK_HASH)"
        unfolding no_match_def
      proof (intro allI impI)
        fix p
        assume "table dbs p \<noteq> 0"
        with ok obtain j where j: "j \<in> D" "marked_at (bitmap2 s0) j" "j AND MASK_HASH = 0"
          "table dbs p = payload_tag s0 j"
          unfolding dir_ok_def by blast
        from j(1) dis have "j \<noteq> k"
          by blast
        with t j(2) have ne: "\<not> (data s0 (2 * j) = a \<and> data s0 (2 * j + 1) = b)"
          by (simp add: target_def a0 b0)
        have ix: "table dbs p AND MASK_INDEX = j"
          by (simp add: j(4) payload_tag_def tag_parts(1) [OF j(3)])
        have d: "data dbs = data s0"
          using e by (simp add: env_eq_def)
        show "lookup_match dbs a b False (h AND MASK_HASH) (table dbs p) 0 = Some None"
          using ne by (auto simp: lookup_match_def Let_def ix d)
      qed
      have ixk: "new_v AND MASK_INDEX = k"
        by (simp add: new_v_def tag_parts(1) [OF small])
      have "k \<noteq> 0"
        using t by (simp add: target_def)
      with ixk have nz: "new_v \<noteq> 0"
        by auto
      have tg: "new_v AND MASK_HASH = h AND MASK_HASH"
        by (simp add: new_v_def tag_parts(2) [OF small])
      have da: "data dbs (2 * k) = a" "data dbs (2 * k + 1) = b"
        by (simp_all add: a_def b_def)
      have rf: "rehash_found dbs a b new_v (h AND MASK_HASH)"
        unfolding rehash_found_def ixk using nm nz tg da by blast
      with post have ll: "lookup_loop (snd y) w a b False (h AND MASK_HASH) h st st 0 0 =
             Some (if fst y then Found k else ProbeExhausted, snd y)" for w
        by (simp add: ixk)
      have lk: "llmsset_lookup2 (snd y) w a b False =
             Some (if fst y then Found k else ProbeExhausted, snd y)" for w
        by (simp add: llmsset_lookup2_def hash_step_def h_def [symmetric]
            probe_start_grows [OF g] st ll)
      note oc = rehash_loop_outcome [OF rl]
      show ?thesis
      proof (cases "fst y")
        case True
        with oc obtain q where "snd y = dbs\<lparr>table := (table dbs)(q := new_v)\<rparr>"
          by auto
        then have "table (snd y) q = payload_tag s0 k"
          by (simp add: nv)
        then have "\<exists>p. table (snd y) p = payload_tag s0 k"
          by blast
        with lk True show ?thesis
          by (simp add: settled_def a0 [symmetric] b0 [symmetric])
      next
        case False
        with oc have sy: "snd y = dbs"
          by simp
        with False have y: "y = (False, dbs)"
          by (simp add: prod_eq_iff)
        have "k \<notin> D"
          using dis by blast
        from dir_ok_absent [OF ok this \<open>k \<noteq> 0\<close> small]
        have "\<not> (\<exists>p. table (snd y) p = payload_tag s0 k)"
          by (simp add: sy)
        moreover have "llmsset_rehash_bucket (snd y) k = Some (False, snd y)"
          using rb by (simp add: y)
        ultimately show ?thesis
          using lk False by (simp add: settled_def a0 [symmetric] b0 [symmetric])
      qed
    qed
    then show "\<forall>i\<in>{k}. target s0 i \<longrightarrow> settled s0 (snd y) i"
      by simp
  qed
  then have "\<forall>D. dir_ok s0 D dbs \<and> D \<inter> {k} = {} \<longrightarrow>
      dir_ok s0 (D \<union> {k}) (snd y) \<and> (\<forall>i\<in>{k}. target s0 i \<longrightarrow> settled s0 (snd y) i)"
    by blast
  with e' g have "rehash_swept s0 {k} dbs (snd y)"
    unfolding rehash_swept_def by blast
  with rb show ?thesis
    by blast
qed

lemma swept_one:
  assumes e: "env_eq s0 dbs" and cfg: "sweep_cfg s0" and small: "k AND MASK_HASH = 0"
  shows "\<exists>dbs'. (if bitmap2 dbs (bit_ptr k) AND bit_mask k \<noteq> 0
                 then map_option snd (llmsset_rehash_bucket dbs k) else Some dbs) = Some dbs' \<and>
            rehash_swept s0 {k} dbs dbs'"
proof (cases "marked_at (bitmap2 s0) k")
  case True
  then have mk: "bitmap2 dbs (bit_ptr k) AND bit_mask k \<noteq> 0"
    using e by (simp add: marked_at_def env_eq_def)
  from swept_marked [OF e cfg small True] obtain y where
    "llmsset_rehash_bucket dbs k = Some y" "rehash_swept s0 {k} dbs (snd y)"
    by blast
  with mk show ?thesis
    by simp
next
  case False
  then have mk: "\<not> bitmap2 dbs (bit_ptr k) AND bit_mask k \<noteq> 0"
    using e by (simp add: marked_at_def env_eq_def)
  from swept_skip [OF e False] mk show ?thesis
    by simp
qed


lemma rehash_leaf_branches:
  fixes x :: u64
  assumes "x + 1 \<noteq> 0"
  shows "(if drop_bit 1 (bit_mask x) = 0
          then rehash_leaf dbs (bit_ptr x + 1) 0x8000000000000000 first k count
          else rehash_leaf dbs (bit_ptr x) (drop_bit 1 (bit_mask x)) first k count) =
         rehash_leaf dbs (bit_ptr (x + 1)) (bit_mask (x + 1)) first k count"
  using mask_step [OF assms] by (auto split: if_splits)

lemma rehash_leaf_swept:
  fixes first count :: u64
  assumes cfg: "sweep_cfg s0" and rng: "unat first + unat count \<le> 2 ^ 44"
  shows "env_eq s0 dbs \<Longrightarrow> k \<le> count \<Longrightarrow>
         \<exists>dbs'. rehash_leaf dbs (bit_ptr (first + k)) (bit_mask (first + k)) first k count
                  = Some dbs' \<and>
            rehash_swept s0 {i. first + k \<le> i \<and> i < first + count} dbs dbs'"
proof (induction "unat count - unat k" arbitrary: dbs k)
  case 0
  then have "k = count"
    by (simp add: word_le_nat_alt word_unat_eq_iff)
  moreover have e: "{i. first + count \<le> i \<and> i < first + count} = {}"
    by auto
  have "rehash_swept s0 {i. first + count \<le> i \<and> i < first + count} dbs dbs"
    unfolding e by (rule swept_empty [OF "0.prems"(1)])
  ultimately show ?case
    by (subst rehash_leaf.simps) simp
next
  case (Suc n)
  then have lt: "k < count"
    by (simp add: word_less_nat_alt)
  have nov: "unat first + unat count < 2 ^ 64"
    using rng by simp
  have sk: "unat (k + 1) = Suc (unat k)"
    by (rule unat_succ_below [OF lt])
  have le: "k + 1 \<le> count"
    using lt by (rule inc_le)
  have ux: "unat (first + k) = unat first + unat k"
    by (rule unat_add_below [OF nov Suc.prems(2)])
  have uc: "unat (first + count) = unat first + unat count"
    by (rule unat_add_below [OF nov order_refl])
  have xlt: "first + k < first + count"
    using lt by (simp add: word_less_nat_alt ux uc)
  have "unat (first + k) < 2 ^ 44"
    using ux rng lt by (simp add: word_less_nat_alt)
  then have small: "(first + k) AND MASK_HASH = 0"
    by (rule small_index)
  have "unat (first + k) < 2 ^ 64 - 1"
    using ux nov lt by (simp add: word_less_nat_alt)
  then have "unat (first + k + 1) = Suc (unat (first + k))"
    by (simp add: unat_word_ariths)
  then have nz: "first + k + 1 \<noteq> 0"
    by auto
  have n: "n = unat count - unat (k + 1)"
    using Suc.hyps(2) sk by simp
  have add1: "first + k + 1 = first + (k + 1)"
    by simp
  from swept_one [OF Suc.prems(1) cfg small] obtain dbs1 where
    one: "(if bitmap2 dbs (bit_ptr (first + k)) AND bit_mask (first + k) \<noteq> 0
           then map_option snd (llmsset_rehash_bucket dbs (first + k)) else Some dbs)
          = Some dbs1"
    and s1: "rehash_swept s0 {first + k} dbs dbs1"
    by blast
  have e1: "env_eq s0 dbs1"
    using s1 by (simp add: rehash_swept_def)
  from Suc.hyps(1) [OF n e1 le] obtain dbs' where
    r: "rehash_leaf dbs1 (bit_ptr (first + (k + 1))) (bit_mask (first + (k + 1)))
          first (k + 1) count = Some dbs'"
    and s2: "rehash_swept s0 {i. first + (k + 1) \<le> i \<and> i < first + count} dbs1 dbs'"
    by blast
  have "rehash_swept s0 ({first + k} \<union> {i. first + k + 1 \<le> i \<and> i < first + count}) dbs dbs'"
    by (rule swept_union [OF s1 s2 [folded add1] range_split_first(2) [OF xlt]])
  then have sw: "rehash_swept s0 {i. first + k \<le> i \<and> i < first + count} dbs dbs'"
    by (simp only: range_split_first(1) [OF xlt])
  have "rehash_leaf dbs (bit_ptr (first + k)) (bit_mask (first + k)) first k count = Some dbs'"
    apply (subst rehash_leaf.simps)
    apply (simp only: lt if_True one option.case rehash_leaf_branches [OF nz] add1 r)
    done
  with sw show ?case
    by blast
qed

lemma bit_start: "bit_ptr first = first div 64"
  "bit_mask first = drop_bit (unat (first AND 63)) 0x8000000000000000"
  by (simp_all add: bit_ptr_def bit_mask_def)

lemma rehash_par_swept:
  assumes cfg: "sweep_cfg s0"
  shows "env_eq s0 dbs \<Longrightarrow> unat first + unat count \<le> 2 ^ 44 \<Longrightarrow>
   \<exists>dbs'. llmsset_rehash_par dbs first count = Some dbs' \<and>
      rehash_swept s0 {i. first \<le> i \<and> i < first + count} dbs dbs'"
proof (induction dbs first count rule: llmsset_rehash_par.induct)
  case (1 dbs first count)
  have nov: "unat first + unat count < 2 ^ 64"
    using "1.prems"(2) by simp
  show ?case
  proof (cases "count > 1024")
    case False
    from rehash_leaf_swept [OF cfg "1.prems"(2) "1.prems"(1), of 0] False show ?thesis
      by (subst llmsset_rehash_par.simps) (simp add: bit_start)
  next
    case True
    define split where "split = count div 2"
    have us: "unat split = unat count div 2"
      by (simp add: split_def unat_div)
    have sle: "split \<le> count"
      by (simp add: word_le_nat_alt us)
    have ur: "unat (count - split) = unat count - unat split"
      using sle by (simp add: unat_sub)
    have uf: "unat (first + split) = unat first + unat split"
      by (rule unat_add_below [OF nov sle])
    have rng_r: "unat (first + split) + unat (count - split) \<le> 2 ^ 44"
      using "1.prems"(2) uf ur us by simp
    have rng_l: "unat first + unat split \<le> 2 ^ 44"
      using "1.prems"(2) us by simp
    from "1.IH"(1) [OF True "1.prems"(1) rng_r [unfolded split_def]] obtain dbs1 where
      r: "llmsset_rehash_par dbs (first + split) (count - split) = Some dbs1"
      and rs: "rehash_swept s0 {i. first + split \<le> i \<and> i < first + split + (count - split)}
                 dbs dbs1"
      unfolding split_def by blast
    have e1: "env_eq s0 dbs1"
      using rs by (simp add: rehash_swept_def)
    from "1.IH"(2) [OF True r [unfolded split_def] e1 rng_l [unfolded split_def]]
    obtain dbs2 where
      l: "llmsset_rehash_par dbs1 first split = Some dbs2"
      and ls: "rehash_swept s0 {i. first \<le> i \<and> i < first + split} dbs1 dbs2"
      unfolding split_def by blast
    have "rehash_swept s0 ({i. first + split \<le> i \<and> i < first + split + (count - split)} \<union>
         {i. first \<le> i \<and> i < first + split}) dbs dbs2"
      by (rule swept_union [OF rs ls range_split_mid(2) [OF nov sle]])
    then have "rehash_swept s0 {i. first \<le> i \<and> i < first + count} dbs dbs2"
      by (simp only: range_split_mid(1) [OF nov sle])
    with True r l show ?thesis
      by (subst llmsset_rehash_par.simps) (simp add: split_def)
  qed
qed


section \<open>Clear, mark, rehash\<close>

lemma mark_state:
  "table (snd (llmsset_mark dbs i)) = table dbs \<and> data (snd (llmsset_mark dbs i)) = data dbs \<and>
   same_config dbs (snd (llmsset_mark dbs i)) \<and>
   (\<forall>j. marked_at (bitmap2 (snd (llmsset_mark dbs i))) j \<longleftrightarrow>
      marked_at (bitmap2 dbs) j \<or> j = i)"
proof (cases "bitmap2 dbs (bit_ptr i) AND bit_mask i \<noteq> 0")
  case True
  then have "marked_at (bitmap2 dbs) i"
    by (simp add: marked_at_def)
  with True show ?thesis
    by (auto simp: llmsset_mark_def cas_set_loop_eq Let_def same_config_def)
next
  case False
  then show ?thesis
    by (simp add: llmsset_mark_def cas_set_loop_eq Let_def same_config_def marked_at_set)
qed

lemma run_marks:
  "\<exists>ans s2. run dbs (map Mark live @ cs) =
       (case run s2 cs of None \<Rightarrow> None | Some rs \<Rightarrow> Some (ans @ fst rs, snd rs)) \<and>
     table s2 = table dbs \<and> data s2 = data dbs \<and> same_config dbs s2 \<and>
     (\<forall>j. marked_at (bitmap2 s2) j \<longleftrightarrow> marked_at (bitmap2 dbs) j \<or> j \<in> set live)"
proof (induction live arbitrary: dbs)
  case Nil
  have "run dbs (map Mark [] @ cs) =
       (case run dbs cs of None \<Rightarrow> None | Some rs \<Rightarrow> Some ([] @ fst rs, snd rs))"
    by (simp split: option.splits)
  then show ?case
    unfolding same_config_def by (intro exI [of _ "[]"] exI [of _ dbs]) simp
next
  case (Cons i live)
  define s1 where "s1 = snd (llmsset_mark dbs i)"
  note m = mark_state [of dbs i, folded s1_def]
  from Cons [of s1] obtain ans s2 where
    r: "run s1 (map Mark live @ cs) =
       (case run s2 cs of None \<Rightarrow> None | Some rs \<Rightarrow> Some (ans @ fst rs, snd rs))"
    and t: "table s2 = table s1" and d: "data s2 = data s1" and c: "same_config s1 s2"
    and b: "\<forall>j. marked_at (bitmap2 s2) j \<longleftrightarrow> marked_at (bitmap2 s1) j \<or> j \<in> set live"
    by blast
  have "run dbs (map Mark (i # live) @ cs) =
       (case run s2 cs of None \<Rightarrow> None
        | Some rs \<Rightarrow> Some ((Marked (fst (llmsset_mark dbs i)) # ans) @ fst rs, snd rs))"
    by (simp add: s1_def [symmetric] r split: option.splits)
  moreover have "same_config dbs s2"
    using m c by (simp add: same_config_def)
  moreover have "\<forall>j. marked_at (bitmap2 s2) j \<longleftrightarrow> marked_at (bitmap2 dbs) j \<or> j \<in> set (i # live)"
    using m b by auto
  ultimately show ?case
    using t d m by (intro exI [of _ "Marked (fst (llmsset_mark dbs i)) # ans"] exI [of _ s2]) simp
qed

lemma reserved_marks:
  "marked_at ((\<lambda>i. 0)(0 := 0xc000000000000000)) j \<longleftrightarrow> j = 0 \<or> j = 1"
proof -
  have p: "bit_ptr (0 :: u64) = 0" "bit_ptr (1 :: u64) = 0"
    by (simp_all add: bit_ptr_def)
  have m: "bit_mask 0 = 0x8000000000000000" "bit_mask 1 = 0x4000000000000000"
    by (simp_all add: bit_mask_def)
  define z where "z = ((\<lambda>i. 0) :: u64 \<Rightarrow> u64)"
  define a where "a = z(bit_ptr 0 := z (bit_ptr 0) OR bit_mask 0)"
  have "(\<lambda>i. 0)(0 := 0xc000000000000000) = a(bit_ptr 1 := a (bit_ptr 1) OR bit_mask 1)"
    by (simp add: a_def z_def p m)
  then have "marked_at ((\<lambda>i. 0)(0 := 0xc000000000000000)) j \<longleftrightarrow>
             marked_at (a(bit_ptr 1 := a (bit_ptr 1) OR bit_mask 1)) j"
    by simp
  also have "\<dots> \<longleftrightarrow> marked_at a j \<or> j = 1"
    by (rule marked_at_set)
  also have "marked_at a j \<longleftrightarrow> marked_at z j \<or> j = 0"
    unfolding a_def by (rule marked_at_set)
  also have "marked_at z j \<longleftrightarrow> False"
    by (simp add: marked_at_def z_def)
  finally have f: "marked_at ((\<lambda>i. 0)(0 := 0xc000000000000000)) j \<longleftrightarrow>
      (False \<or> j = 0) \<or> j = 1" .
  show ?thesis
    unfolding f by simp
qed

text \<open>
  Claim C4, as the code has it.  \<open>llmsset_clear\<close> resets \<open>bitmap2\<close> to the two reserved
  bits, so the live slots are marked after the clear and before the rehash.  On a table
  with no custom hash registered, let the live indices lie between 2 and \<open>table_size\<close>
  and let the payload of each live index differ from the payload of every other live
  index and from the payloads stored at the reserved indices 0 and 1.  Then
  \<open>llmsset_clear\<close>, \<open>llmsset_mark\<close> of every live index and \<open>llmsset_rehash\<close> all
  return, and for every live index one of two cases holds afterwards.  Either a slot of
  the directory holds the entry of the index, tag and index, and then every
  \<open>llmsset_lookup\<close> of its payload returns that index with \<open>created\<close> set to false and
  leaves the state unchanged.  Or no slot holds the entry: then the re-insertion of the
  index finds no empty slot within the probe budget, \<open>llmsset_rehash_bucket\<close> returns 0
  on the resulting table, and every lookup of the payload returns through the exhaustion
  exit, again without a change of state.
\<close>

theorem rehash_round_trip:
  assumes nocb: "hash_cb dbs = None" and thr: "0 < threshold dbs"
    and sz: "LLMSSET_MASK dbs \<or> table_size dbs \<noteq> 0"
    and fit: "table_size dbs \<le> MASK_INDEX"
    and rng: "\<forall>i\<in>set live. 2 \<le> i \<and> i < table_size dbs"
    and uniq: "\<forall>i\<in>set live. \<forall>j\<in>set live \<union> {0, 1}. j \<noteq> i \<longrightarrow>
                 \<not> (data dbs (2 * j) = data dbs (2 * i) \<and>
                    data dbs (2 * j + 1) = data dbs (2 * i + 1))"
  shows "\<exists>ans s3. run dbs (Clear # map Mark live @ [Rehash]) = Some (ans, s3) \<and>
           (\<forall>i\<in>set live.
              if \<exists>p. table s3 p = payload_tag dbs i
              then \<forall>w. llmsset_lookup s3 w (data dbs (2 * i)) (data dbs (2 * i + 1)) =
                     Some (i, Some False, s3)
              else llmsset_rehash_bucket s3 i = Some (False, s3) \<and>
                   (\<forall>w. llmsset_lookup2 s3 w (data dbs (2 * i)) (data dbs (2 * i + 1)) False =
                      Some (ProbeExhausted, s3)))"
proof -
  define s1 where "s1 = llmsset_clear dbs"
  have s1: "table s1 = (\<lambda>i. 0)" "data s1 = data dbs" "same_config dbs s1"
    "bitmap2 s1 = (\<lambda>i. 0)(0 := 0xc000000000000000)"
    by (simp_all add: s1_def llmsset_clear_def llmsset_reset_region_def same_config_def)
  from run_marks [of s1 live "[Rehash]"] obtain ans s2 where
    r: "run s1 (map Mark live @ [Rehash]) =
       (case run s2 [Rehash] of None \<Rightarrow> None | Some rs \<Rightarrow> Some (ans @ fst rs, snd rs))"
    and t: "table s2 = table s1" and d: "data s2 = data s1" and c: "same_config s1 s2"
    and b: "\<forall>j. marked_at (bitmap2 s2) j \<longleftrightarrow> marked_at (bitmap2 s1) j \<or> j \<in> set live"
    by blast
  have mk: "marked_at (bitmap2 s2) j \<longleftrightarrow> j = 0 \<or> j = 1 \<or> j \<in> set live" for j
    using b by (simp add: s1(4) reserved_marks)
  have cfg: "sweep_cfg s2"
    using nocb thr sz s1(3) c by (simp add: sweep_cfg_def same_config_def)
  have ts: "table_size s2 = table_size dbs"
    using s1(3) c by (simp add: same_config_def)
  have pt: "payload_tag s2 i = payload_tag dbs i" for i
    by (simp add: payload_tag_def d s1(2))
  have "unat MASK_INDEX < 2 ^ 44"
    by (simp add: MASK_INDEX_def)
  with fit have ub: "unat (table_size dbs) < 2 ^ 44"
    by (simp add: word_le_nat_alt)
  then have rg: "unat (0 :: u64) + unat (table_size s2) \<le> 2 ^ 44"
    by (simp add: ts)
  have e: "env_eq s2 s2"
    by (simp add: env_eq_def same_config_def)
  from rehash_par_swept [OF cfg e rg] obtain s3 where
    rh: "llmsset_rehash_par s2 0 (table_size s2) = Some s3"
    and sw: "rehash_swept s2 {i. 0 \<le> i \<and> i < 0 + table_size s2} s2 s3"
    by blast
  have "dir_ok s2 {} s2"
    by (simp add: dir_ok_def t s1(1))
  with sw have st: "\<forall>i\<in>{i. 0 \<le> i \<and> i < 0 + table_size s2}. target s2 i \<longrightarrow> settled s2 s3 i"
    unfolding rehash_swept_def by blast
  have run: "run dbs (Clear # map Mark live @ [Rehash]) = Some (Done # ans @ [Done], s3)"
    by (simp add: s1_def [symmetric] r rh llmsset_rehash_def)
  have "if \<exists>p. table s3 p = payload_tag dbs i
        then \<forall>w. llmsset_lookup s3 w (data dbs (2 * i)) (data dbs (2 * i + 1)) =
               Some (i, Some False, s3)
        else llmsset_rehash_bucket s3 i = Some (False, s3) \<and>
             (\<forall>w. llmsset_lookup2 s3 w (data dbs (2 * i)) (data dbs (2 * i + 1)) False =
                Some (ProbeExhausted, s3))" if i: "i \<in> set live" for i
  proof -
    from rng i have i2: "2 \<le> i" and il: "i < table_size dbs"
      by simp_all
    from i2 have inz: "i \<noteq> 0" "i \<noteq> 1"
      by (auto simp: word_le_nat_alt)
    have "unat i < 2 ^ 44"
      using il ub by (simp add: word_less_nat_alt)
    then have small: "i AND MASK_HASH = 0"
      by (rule small_index)
    have "target s2 i"
      unfolding target_def mk d s1(2) using i inz small uniq by blast
    moreover have "i \<in> {i. 0 \<le> i \<and> i < 0 + table_size s2}"
      using il by (simp add: ts)
    ultimately have "settled s2 s3 i"
      using st by blast
    then have se: "if \<exists>p. table s3 p = payload_tag dbs i
        then \<forall>w. llmsset_lookup2 s3 w (data dbs (2 * i)) (data dbs (2 * i + 1)) False =
               Some (Found i, s3)
        else llmsset_rehash_bucket s3 i = Some (False, s3) \<and>
             (\<forall>w. llmsset_lookup2 s3 w (data dbs (2 * i)) (data dbs (2 * i + 1)) False =
                Some (ProbeExhausted, s3))"
      unfolding settled_def pt d s1(2) .
    show ?thesis
    proof (cases "\<exists>p. table s3 p = payload_tag dbs i")
      case True
      with se have "\<forall>w. llmsset_lookup2 s3 w (data dbs (2 * i)) (data dbs (2 * i + 1)) False =
               Some (Found i, s3)"
        by simp
      then have "\<forall>w. llmsset_lookup s3 w (data dbs (2 * i)) (data dbs (2 * i + 1)) =
               Some (i, Some False, s3)"
        by (simp add: llmsset_lookup_def)
      with True show ?thesis
        by simp
    next
      case False
      with se show ?thesis
        by simp
    qed
  qed
  with run show ?thesis
    by blast
qed

text \<open>
  The cycle on the table of 512 slots that holds (1,1), (2,2) and (3,3) at the indices
  2, 3 and 4, with the indices 2 and 4 alive: both entries are in the directory
  afterwards, and the lookups of (1,1) and (3,3) return 2 and 4 with \<open>created\<close> false.
\<close>

theorem rehash_round_trip_witness:
  "table_size populated_table = 512 \<and> threshold populated_table = 16 \<and>
   data populated_table 4 = 1 \<and> data populated_table 5 = 1 \<and>
   data populated_table 8 = 3 \<and> data populated_table 9 = 3 \<and>
   (\<exists>ans s3. run populated_table [Clear, Mark 2, Mark 4, Rehash] = Some (ans, s3) \<and>
      (\<exists>p. table s3 p = payload_tag populated_table 2) \<and>
      (\<forall>w. llmsset_lookup s3 w 1 1 = Some (2, Some False, s3)) \<and>
      (\<exists>p. table s3 p = payload_tag populated_table 4) \<and>
      (\<forall>w. llmsset_lookup s3 w 3 3 = Some (4, Some False, s3)))"
proof -
  have "Option.is_none (hash_cb populated_table)"
    by code_simp
  then have h1: "hash_cb populated_table = None"
    by (simp add: Option.is_none_def)
  have ts: "table_size populated_table = 512"
    by code_simp
  have th: "threshold populated_table = 16"
    by code_simp
  have d: "data populated_table 4 = 1" "data populated_table 5 = 1"
    "data populated_table 8 = 3" "data populated_table 9 = 3"
    by code_simp+
  have h2: "0 < threshold populated_table"
    by (simp add: th)
  have h3: "LLMSSET_MASK populated_table \<or> table_size populated_table \<noteq> 0"
    by (simp add: ts)
  have h4: "table_size populated_table \<le> MASK_INDEX"
    by (simp add: ts MASK_INDEX_def)
  have h5: "\<forall>i\<in>set [2, 4]. 2 \<le> i \<and> i < table_size populated_table"
    by (simp add: ts)
  have h6: "\<forall>i\<in>set [2, 4]. \<forall>j\<in>set [2, 4] \<union> {0, 1}. j \<noteq> i \<longrightarrow>
      \<not> (data populated_table (2 * j) = data populated_table (2 * i) \<and>
         data populated_table (2 * j + 1) = data populated_table (2 * i + 1))"
    by code_simp
  from rehash_round_trip [OF h1 h2 h3 h4 h5 h6] obtain ans s3 where
    r: "run populated_table (Clear # map Mark [2, 4] @ [Rehash]) = Some (ans, s3)"
    and l: "\<forall>i\<in>set [2, 4].
         if \<exists>p. table s3 p = payload_tag populated_table i
         then \<forall>w. llmsset_lookup s3 w (data populated_table (2 * i))
                    (data populated_table (2 * i + 1)) = Some (i, Some False, s3)
         else llmsset_rehash_bucket s3 i = Some (False, s3) \<and>
              (\<forall>w. llmsset_lookup2 s3 w (data populated_table (2 * i))
                      (data populated_table (2 * i + 1)) False = Some (ProbeExhausted, s3))"
    by blast
  from r have r': "run populated_table [Clear, Mark 2, Mark 4, Rehash] = Some (ans, s3)"
    by simp
  have "map_option (\<lambda>x. (map_option fst (llmsset_lookup2 (snd x) 0 1 1 False),
                         map_option fst (llmsset_lookup2 (snd x) 0 3 3 False)))
          (run populated_table [Clear, Mark 2, Mark 4, Rehash]) =
        Some (Some (Found 2), Some (Found 4))"
    by code_simp
  with r' have f: "map_option fst (llmsset_lookup2 s3 0 1 1 False) = Some (Found 2)"
    "map_option fst (llmsset_lookup2 s3 0 3 3 False) = Some (Found 4)"
    by simp_all
  have e: "(2::u64) * 2 = 4" "(4::u64) + 1 = 5" "(2::u64) * 4 = 8" "(8::u64) + 1 = 9"
    by simp_all
  have "(2::u64) \<in> set [2, 4]"
    by simp
  from bspec [OF l this]
  have l2: "if \<exists>p. table s3 p = payload_tag populated_table 2
         then \<forall>w. llmsset_lookup s3 w 1 1 = Some (2, Some False, s3)
         else llmsset_rehash_bucket s3 2 = Some (False, s3) \<and>
              (\<forall>w. llmsset_lookup2 s3 w 1 1 False = Some (ProbeExhausted, s3))"
    unfolding e d .
  have "(4::u64) \<in> set [2, 4]"
    by simp
  from bspec [OF l this]
  have l4: "if \<exists>p. table s3 p = payload_tag populated_table 4
         then \<forall>w. llmsset_lookup s3 w 3 3 = Some (4, Some False, s3)
         else llmsset_rehash_bucket s3 4 = Some (False, s3) \<and>
              (\<forall>w. llmsset_lookup2 s3 w 3 3 False = Some (ProbeExhausted, s3))"
    unfolding e d .
  have p2: "\<exists>p. table s3 p = payload_tag populated_table 2"
  proof (rule ccontr)
    assume "\<not> (\<exists>p. table s3 p = payload_tag populated_table 2)"
    with l2 have "llmsset_lookup2 s3 0 1 1 False = Some (ProbeExhausted, s3)"
      by simp
    with f(1) show False
      by simp
  qed
  have p4: "\<exists>p. table s3 p = payload_tag populated_table 4"
  proof (rule ccontr)
    assume "\<not> (\<exists>p. table s3 p = payload_tag populated_table 4)"
    with l4 have "llmsset_lookup2 s3 0 3 3 False = Some (ProbeExhausted, s3)"
      by simp
    with f(2) show False
      by simp
  qed
  from p2 l2 have a2: "\<forall>w. llmsset_lookup s3 w 1 1 = Some (2, Some False, s3)"
    by simp
  from p4 l4 have a4: "\<forall>w. llmsset_lookup s3 w 3 3 = Some (4, Some False, s3)"
    by simp
  from r' p2 a2 p4 a4 ts th d show ?thesis
    by blast
qed

text \<open>
  The same cycle with the calls evaluated: three payloads are inserted, the first and the
  third are kept alive.  After the cycle their lookups return the original indices 2 and
  4 with \<open>created\<close> false, and the dropped payload is inserted anew at index 3.
\<close>

lemma collection_cycle_trace:
  "map_option fst (run small_table
     [Lookup 0 1 1, Lookup 0 2 2, Lookup 0 3 3, Clear, Mark 2, Mark 4, Rehash,
      Lookup 0 1 1, Lookup 0 3 3, Lookup 0 2 2]) =
   Some [Returned 2 (Some True), Returned 3 (Some True), Returned 4 (Some True), Done,
         Marked True, Marked True, Done,
         Returned 2 (Some False), Returned 4 (Some False), Returned 3 (Some True)]"
  by code_simp

text \<open>
  The second case of the cycle occurs.  On the table whose probe budget is one cache
  line, eight payloads that start in the same line are inserted at the indices 2 to 9,
  and all of them are kept alive.  The sweep re-inserts the reserved indices 0 and 1
  first, into the same line, so the line is full before the indices 8 and 9 are reached:
  their re-insertion returns 0, and the lookups of their payloads return 0 afterwards,
  while the lookups of the other payloads return the original indices.
\<close>

lemma collection_cycle_exhausted:
  "map_option fst (run tight_table
     (map (\<lambda>a. Lookup 0 a a) one_line_payloads @ [Clear] @ map Mark [2, 3, 4, 5, 6, 7, 8, 9] @
      [Rehash] @ map (\<lambda>a. Lookup 0 a a) one_line_payloads)) =
   Some (map (\<lambda>i. Returned i (Some True)) [2, 3, 4, 5, 6, 7, 8, 9] @ [Done] @
         replicate 8 (Marked True) @ [Done] @
         map (\<lambda>i. Returned i (Some False)) [2, 3, 4, 5, 6, 7] @
         [Returned 0 None, Returned 0 None])"
  by code_simp

text \<open>
  Claim C4 as stated fails.  Two payloads are inserted at the indices 2 and 3; their
  \<open>bitmap2\<close> bits are set, \<open>llmsset_mark\<close> returns false for both.  After
  \<open>llmsset_clear\<close> followed by \<open>llmsset_rehash\<close> the lookup of the payload (3,3),
  which was at index 3, returns index 2 with \<open>created\<close> set to true: the clear wiped the
  marks, the sweep re-inserted nothing but the reserved indices.
\<close>

theorem rehash_after_clear_counterexample:
  "map_option fst (run small_table
     [Lookup 0 1 1, Lookup 0 3 3, Mark 2, Mark 3, Clear, Rehash, Lookup 0 3 3]) =
   Some [Returned 2 (Some True), Returned 3 (Some True), Marked False, Marked False,
         Done, Done, Returned 2 (Some True)]"
  by code_simp

end
